theory Spec2Isabelle
  imports Main "HOL-Library.Multiset"
begin

section \<open>Data model\<close>

text \<open>
  The planner of the Shrdlite project: \<^verbatim>\<open>Graph.ts\<close> and \<^verbatim>\<open>Planner.ts\<close>. The
  sources hold several revisions of \<^verbatim>\<open>Planner.ts\<close>; the model follows the last one,
  the one whose functions are documented. A relation is one of the eight kinds that
  the planner tests for. JavaScript values are modelled as follows: a \<^verbatim>\<open>number\<close> that
  holds an index or a cost is an \<^typ>\<open>int\<close>; a string that may be \<^verbatim>\<open>null\<close> or
  \<^verbatim>\<open>undefined\<close> is a \<^typ>\<open>string option\<close>; an exception is the left injection of
  a sum type. Reading a property of \<^verbatim>\<open>undefined\<close> raises \<^verbatim>\<open>TypeError\<close>.
\<close>

datatype error =
    TypeError
  | Timeout    \<comment> \<open>\<^verbatim>\<open>Error("Reached timeout before finding a path")\<close>\<close>
  | NoPath     \<comment> \<open>\<^verbatim>\<open>Error("Could not find a path")\<close>\<close>

text \<open>
  \<^verbatim>\<open>ObjectDefinition\<close> and the catalog \<^verbatim>\<open>{ [s:string]: ObjectDefinition }\<close> are
  declared in \<^verbatim>\<open>World.ts\<close>; the planner reads the three string fields below.
\<close>

record ObjectDefinition =
  form :: string
  size' :: string
  color :: string

type_synonym objects = "string \<rightharpoonup> ObjectDefinition"

type_synonym Stack = "string list"

datatype relation = Leftof | Rightof | Beside | Ontop | Inside | Above | Under | Holding

record Literal =
  polarity :: bool
  relation :: relation
  args :: "string list"

type_synonym Conjunction = "Literal list"
type_synonym DNFFormula = "Conjunction list"

datatype command = CmdL | CmdR | CmdP | CmdD

record PlannerNode =
  stacks :: "Stack list"
  holding :: "string option"
  arm :: int
  command :: "command option"
  description :: "string option"

record 'n Edge =
  from_node :: 'n
  to_node :: 'n
  cost :: int

section \<open>JavaScript helpers\<close>

text \<open>A string is truthy unless it is \<^verbatim>\<open>null\<close>, \<^verbatim>\<open>undefined\<close> or empty.\<close>

definition truthy :: "string option \<Rightarrow> bool" where
  "truthy s = (case s of None \<Rightarrow> False | Some x \<Rightarrow> x \<noteq> [])"

text \<open>\<^verbatim>\<open>a === b\<close> between the \<^verbatim>\<open>null\<close>-able \<^verbatim>\<open>holding\<close> and a possibly
  \<^verbatim>\<open>undefined\<close> literal argument: true only for two equal strings.\<close>

definition strict_eq :: "string option \<Rightarrow> string option \<Rightarrow> bool" where
  "strict_eq a b = (case a of None \<Rightarrow> False | Some x \<Rightarrow> b = Some x)"

text \<open>\<^verbatim>\<open>xs[i]\<close>: \<^verbatim>\<open>undefined\<close> out of range.\<close>

definition at_index :: "'a list \<Rightarrow> int \<Rightarrow> 'a option" where
  "at_index xs i = (if 0 \<le> i \<and> i < int (length xs) then Some (xs ! nat i) else None)"

text \<open>\<^verbatim>\<open>stacks[i]\<close> followed by a property access on the result.\<close>

definition stack_at :: "Stack list \<Rightarrow> int \<Rightarrow> error + Stack" where
  "stack_at sts i = (case at_index sts i of None \<Rightarrow> Inl TypeError | Some s \<Rightarrow> Inr s)"

text \<open>\<^verbatim>\<open>objects[e]\<close> followed by a property access on the result.\<close>

definition lookup :: "objects \<Rightarrow> string \<Rightarrow> error + ObjectDefinition" where
  "lookup objs e = (case objs e of None \<Rightarrow> Inl TypeError | Some d \<Rightarrow> Inr d)"

text \<open>\<^verbatim>\<open>objects[e]\<close> for a possibly \<^verbatim>\<open>undefined\<close> id, followed by a property access.\<close>

definition lookup_entity :: "objects \<Rightarrow> string option \<Rightarrow> error + ObjectDefinition" where
  "lookup_entity objs e = (case e of None \<Rightarrow> Inl TypeError | Some x \<Rightarrow> lookup objs x)"

fun lookup_all :: "objects \<Rightarrow> string list \<Rightarrow> error + ObjectDefinition list" where
  "lookup_all objs [] = Inr []"
| "lookup_all objs (e # es) =
     (case lookup objs e of Inl err \<Rightarrow> Inl err
      | Inr d \<Rightarrow> (case lookup_all objs es of Inl err \<Rightarrow> Inl err | Inr ds \<Rightarrow> Inr (d # ds)))"

text \<open>\<^verbatim>\<open>Array.prototype.indexOf\<close>: the first position of the element, or \<open>-1\<close>.\<close>

fun indexOf_from :: "string list \<Rightarrow> string option \<Rightarrow> int \<Rightarrow> int" where
  "indexOf_from [] e i = - 1"
| "indexOf_from (x # xs) e i = (if e = Some x then i else indexOf_from xs e (i + 1))"

definition indexOf :: "string list \<Rightarrow> string option \<Rightarrow> int" where
  "indexOf xs e = indexOf_from xs e 0"

text \<open>\<^verbatim>\<open>xs.splice(i, 1)\<close> for \<open>i\<close> the result of \<^verbatim>\<open>indexOf\<close>: index \<open>-1\<close> removes the
  last element.\<close>

definition splice1 :: "'a list \<Rightarrow> int \<Rightarrow> 'a list" where
  "splice1 xs i = (if i < 0 then butlast xs else take (nat i) xs @ drop (nat i + 1) xs)"

section \<open>Locating an entity\<close>

fun getStackIndex_loop :: "Stack list \<Rightarrow> string option \<Rightarrow> int \<Rightarrow> int option \<Rightarrow> int option" where
  "getStackIndex_loop [] entity i stackIndex = stackIndex"
| "getStackIndex_loop (s # sts) entity i stackIndex =
     (if indexOf s entity > - 1 then Some i
      else getStackIndex_loop sts entity (i + 1) stackIndex)"

text \<open>\<^verbatim>\<open>getStackIndex(stacks, entity, _default?)\<close>; \<open>None\<close> is \<^verbatim>\<open>undefined\<close>.\<close>

definition getStackIndex :: "Stack list \<Rightarrow> string option \<Rightarrow> int option \<Rightarrow> int option" where
  "getStackIndex sts entity dflt = getStackIndex_loop sts entity 0 dflt"

section \<open>Describing an action\<close>

definition count_same :: "(ObjectDefinition \<Rightarrow> bool) \<Rightarrow> ObjectDefinition list \<Rightarrow> int" where
  "count_same p ds = int (length (filter p ds))"

text \<open>
  \<^verbatim>\<open>getDescription(node, objects, entity, action)\<close> as \<^verbatim>\<open>outgoingEdges\<close> calls it,
  with an action. (The call without an action belongs to the answer of a
  \<^verbatim>\<open>where\<close> query, which plans nothing.) Every \<^verbatim>\<open>objects[e]\<close> it reads is
  followed by a property access, so an id outside the catalog raises.
\<close>

text \<open>The \<^verbatim>\<open>existing\<close> array: the entities the described one is told apart from.\<close>

definition existing_entities :: "PlannerNode \<Rightarrow> string option \<Rightarrow> command \<Rightarrow> error + string list" where
  "existing_entities node entity action =
     (case (if action = CmdP \<or> action = CmdD
            then Inr (concat (stacks node) @ (case holding node of None \<Rightarrow> [] | Some h \<Rightarrow> [h]))
            else (case getStackIndex (stacks node) entity None of
                    None \<Rightarrow> Inl TypeError
                  | Some i \<Rightarrow> stack_at (stacks node) i)) of
        Inl err \<Rightarrow> Inl err
      | Inr existing \<Rightarrow> Inr (splice1 existing (indexOf existing entity)))"

text \<open>The adjectives kept for an entity \<open>d\<close> among the definitions \<open>ds\<close> of the
  existing ones.\<close>

definition unique_description :: "ObjectDefinition \<Rightarrow> ObjectDefinition list \<Rightarrow> string" where
  "unique_description d ds =
     (if count_same (\<lambda>x. form x = form d) ds = 0 then ''the '' @ form d
      else if count_same (\<lambda>x. form x = form d \<and> color x = color d) ds = 0
      then ''the '' @ color d @ '' '' @ form d
      else if count_same (\<lambda>x. form x = form d \<and> size' x = size' d) ds = 0
      then ''the '' @ size' d @ '' '' @ form d
      else if count_same (\<lambda>x. form x = form d \<and> color x = color d \<and> size' x = size' d) ds = 0
      then ''the '' @ size' d @ '' '' @ color d @ '' '' @ form d
      else ''a '' @ size' d @ '' '' @ color d @ '' '' @ form d)"

definition getDescription ::
  "PlannerNode \<Rightarrow> objects \<Rightarrow> string option \<Rightarrow> command \<Rightarrow> error + string" where
  "getDescription node objs entity action =
    (let result = (if action = CmdP then ''Picking up ''
                   else if action = CmdD then ''Putting it '' else [])
     in (if truthy entity
         then (case lookup_entity objs entity of
                 Inl err \<Rightarrow> Inl err
               | Inr d \<Rightarrow>
                  (case existing_entities node entity action of
                     Inl err \<Rightarrow> Inl err
                   | Inr existing \<Rightarrow>
                      (case lookup_all objs existing of
                         Inl err \<Rightarrow> Inl err
                       | Inr ds \<Rightarrow>
                           Inr (result
                                @ (if action \<noteq> CmdP
                                   then (if form d = ''box'' then ''inside '' else ''on '')
                                   else [])
                                @ unique_description d ds @ ''.''))))
         else Inr (result @ ''on the floor'' @ ''.'')))"

section \<open>The state-space adapter\<close>

text \<open>
  The test of \<^verbatim>\<open>outgoingEdges\<close> that skips the command cancelling the one that
  produced the node.
\<close>

definition cancels :: "command option \<Rightarrow> command \<Rightarrow> bool" where
  "cancels prev c =
     ((prev = Some CmdL \<and> c = CmdR) \<or> (prev = Some CmdR \<and> c = CmdL) \<or>
      (prev = Some CmdP \<and> c = CmdD) \<or> (prev = Some CmdD \<and> c = CmdP))"

text \<open>
  The condition under which the \<^verbatim>\<open>'d'\<close> branch returns without an edge, on
  the form and size of the held entity and of the column's top (\<open>None\<close> is
  \<^verbatim>\<open>null\<close>).
\<close>

definition drop_refused ::
  "string option \<Rightarrow> string option \<Rightarrow> string option \<Rightarrow> string option \<Rightarrow> string option \<Rightarrow> bool" where
  "drop_refused hold holdForm holdSize topForm topSize =
     (hold = None \<or>
      (topSize = Some ''small'' \<and> holdSize = Some ''large'') \<or>
      (truthy topForm \<and> topForm \<noteq> Some ''box'' \<and> holdForm = Some ''ball'') \<or>
      topForm = Some ''ball'' \<or>
      (topForm = Some ''box'' \<and> holdForm \<in> {Some ''pyramid'', Some ''plank'', Some ''box''}
         \<and> topSize = holdSize) \<or>
      (topSize = Some ''small'' \<and> topForm \<in> {Some ''brick'', Some ''pyramid''}
         \<and> holdForm = Some ''box'') \<or>
      (topForm = Some ''pyramid'' \<and> holdForm = Some ''box'' \<and> holdSize = topSize))"

text \<open>
  The body of the callback of \<^verbatim>\<open>['l','r','p','d'].forEach\<close>, one definition per
  branch: \<open>Inr None\<close> is a \<^verbatim>\<open>return\<close> that pushes no edge. The copy of the stacks
  made by \<^verbatim>\<open>JSON.parse(JSON.stringify(...))\<close> is the value itself.
\<close>

definition new_edge ::
  "PlannerNode \<Rightarrow> Stack list \<Rightarrow> string option \<Rightarrow> int \<Rightarrow> command \<Rightarrow> string option
   \<Rightarrow> PlannerNode Edge" where
  "new_edge node sts hold a c descr =
     \<lparr>from_node = node,
      to_node = \<lparr>stacks = sts, holding = hold, arm = a, command = Some c, description = descr\<rparr>,
      cost = 1\<rparr>"

definition left_edge :: "PlannerNode \<Rightarrow> error + PlannerNode Edge option" where
  "left_edge node =
     (if arm node \<le> 0 then Inr None
      else Inr (Some (new_edge node (stacks node) (holding node) (arm node - 1) CmdL None)))"

definition right_edge :: "PlannerNode \<Rightarrow> error + PlannerNode Edge option" where
  "right_edge node =
     (if arm node \<ge> int (length (stacks node)) - 1 then Inr None
      else Inr (Some (new_edge node (stacks node) (holding node) (arm node + 1) CmdR None)))"

definition pick_edge :: "objects \<Rightarrow> PlannerNode \<Rightarrow> error + PlannerNode Edge option" where
  "pick_edge objs node =
     (if holding node \<noteq> None then Inr None
      else (case stack_at (stacks node) (arm node) of
              Inl err \<Rightarrow> Inl err
            | Inr col \<Rightarrow>
                if col = [] then Inr None
                else (case getDescription node objs (Some (last col)) CmdP of
                        Inl err \<Rightarrow> Inl err
                      | Inr descr \<Rightarrow>
                          Inr (Some (new_edge node ((stacks node)[nat (arm node) := butlast col])
                                       (Some (last col)) (arm node) CmdP (Some descr))))))"

text \<open>\<^verbatim>\<open>holding ? objects[holding].form : null\<close> and the same for the size.\<close>

definition hold_props :: "objects \<Rightarrow> string option \<Rightarrow> error + string option \<times> string option" where
  "hold_props objs hold =
     (if truthy hold
      then (case lookup_entity objs hold of
              Inl err \<Rightarrow> Inl err
            | Inr d \<Rightarrow> Inr (Some (form d), Some (size' d)))
      else Inr (None, None))"

text \<open>\<^verbatim>\<open>stacks[arm][0] ? objects[stacks[arm][stacks[arm].length - 1]].form : null\<close>
  and the same for the size.\<close>

definition top_props :: "objects \<Rightarrow> Stack \<Rightarrow> error + string option \<times> string option" where
  "top_props objs col =
     (if truthy (at_index col 0)
      then (case lookup objs (last col) of
              Inl err \<Rightarrow> Inl err
            | Inr d \<Rightarrow> Inr (Some (form d), Some (size' d)))
      else Inr (None, None))"

definition drop_edge :: "objects \<Rightarrow> PlannerNode \<Rightarrow> error + PlannerNode Edge option" where
  "drop_edge objs node =
     (case hold_props objs (holding node) of
        Inl err \<Rightarrow> Inl err
      | Inr (holdForm, holdSize) \<Rightarrow>
         (case stack_at (stacks node) (arm node) of
            Inl err \<Rightarrow> Inl err
          | Inr col \<Rightarrow>
             (case top_props objs col of
                Inl err \<Rightarrow> Inl err
              | Inr (topForm, topSize) \<Rightarrow>
                  if drop_refused (holding node) holdForm holdSize topForm topSize
                  then Inr None
                  else (case getDescription node objs (at_index col (int (length col) - 1)) CmdD of
                          Inl err \<Rightarrow> Inl err
                        | Inr descr \<Rightarrow>
                            Inr (Some (new_edge node
                                         ((stacks node)[nat (arm node) :=
                                            (case holding node of None \<Rightarrow> col
                                             | Some h \<Rightarrow> col @ [h])])
                                         None (arm node) CmdD (Some descr)))))))"

definition edge_for :: "objects \<Rightarrow> PlannerNode \<Rightarrow> command \<Rightarrow> error + PlannerNode Edge option" where
  "edge_for objs node c =
    (if cancels (command node) c then Inr None
     else (case c of
             CmdL \<Rightarrow> left_edge node
           | CmdR \<Rightarrow> right_edge node
           | CmdP \<Rightarrow> pick_edge objs node
           | CmdD \<Rightarrow> drop_edge objs node))"

text \<open>The \<^verbatim>\<open>forEach\<close> itself: edges are pushed in order, an exception ends it.\<close>

fun collect_edges :: "objects \<Rightarrow> PlannerNode \<Rightarrow> command list \<Rightarrow> error + PlannerNode Edge list" where
  "collect_edges objs node [] = Inr []"
| "collect_edges objs node (c # cs) =
     (case edge_for objs node c of Inl err \<Rightarrow> Inl err
      | Inr r \<Rightarrow>
        (case collect_edges objs node cs of Inl err \<Rightarrow> Inl err
         | Inr es \<Rightarrow> Inr ((case r of None \<Rightarrow> [] | Some e \<Rightarrow> [e]) @ es)))"

definition outgoingEdges :: "objects \<Rightarrow> PlannerNode \<Rightarrow> error + PlannerNode Edge list" where
  "outgoingEdges objs node = collect_edges objs node [CmdL, CmdR, CmdP, CmdD]"

section \<open>The heuristic estimator\<close>

text \<open>\<^verbatim>\<open>condition.args[i]\<close>; \<open>None\<close> is \<^verbatim>\<open>undefined\<close>.\<close>

definition arg :: "Literal \<Rightarrow> nat \<Rightarrow> string option" where
  "arg c i = (if i < length (args c) then Some (args c ! i) else None)"

text \<open>
  The three lines that \<^verbatim>\<open>heuristics\<close> repeats for an entity: its stack index (by
  default the arm's), its position in that stack, and the number of entities
  above it.
\<close>

definition locate :: "PlannerNode \<Rightarrow> string option \<Rightarrow> error + int \<times> int \<times> int" where
  "locate n e =
     (case getStackIndex (stacks n) e (Some (arm n)) of
        None \<Rightarrow> Inl TypeError
      | Some stackIndex \<Rightarrow>
         (case stack_at (stacks n) stackIndex of
            Inl err \<Rightarrow> Inl err
          | Inr s \<Rightarrow>
              Inr (stackIndex, indexOf s e,
                   if indexOf s e = - 1 then 0 else int (length s) - indexOf s e - 1)))"

text \<open>The estimate for \<^verbatim>\<open>leftof\<close> (and the swapped \<^verbatim>\<open>rightof\<close>) when it is not
  already fulfilled.\<close>

definition leftof_cost ::
  "PlannerNode \<Rightarrow> string option \<Rightarrow> string option \<Rightarrow> int \<Rightarrow> int \<Rightarrow> int \<Rightarrow> int \<Rightarrow> bool \<Rightarrow> int" where
  "leftof_cost n first second firstStackIndex numAboveFirst secondStackIndex numAboveSecond
     holdingOneOfThem =
     (if \<not> holdingOneOfThem then
        (if secondStackIndex = 0 \<and> firstStackIndex = int (length (stacks n)) - 1 then
           min \<bar>firstStackIndex - arm n\<bar> \<bar>secondStackIndex - arm n\<bar>
             + \<bar>firstStackIndex - secondStackIndex\<bar> * 2
             + (numAboveFirst + numAboveSecond) * 4 + 2
         else if secondStackIndex = 0 then
           \<bar>secondStackIndex - arm n\<bar> + numAboveSecond * 4 + 1
             + \<bar>firstStackIndex - secondStackIndex\<bar> + 2
         else if firstStackIndex = int (length (stacks n)) - 1 then
           \<bar>firstStackIndex - arm n\<bar> + numAboveFirst * 4 + 1
             + \<bar>firstStackIndex - secondStackIndex\<bar> + 2
         else
           min (\<bar>firstStackIndex - arm n\<bar> + numAboveFirst * 4)
               (\<bar>secondStackIndex - arm n\<bar> + numAboveSecond * 4)
             + 1 + \<bar>firstStackIndex - secondStackIndex\<bar> + 2)
      else
        (if (strict_eq (holding n) first \<and> arm n < secondStackIndex)
            \<or> (strict_eq (holding n) second \<and> arm n > firstStackIndex)
         then 1
         else (if strict_eq (holding n) first then arm n - secondStackIndex + 2
               else firstStackIndex - arm n + 2)
              + (if strict_eq (holding n) first \<and> secondStackIndex = 0
                 then numAboveSecond * 4 + 3
                 else if strict_eq (holding n) second
                         \<and> firstStackIndex = int (length (stacks n)) - 1
                 then numAboveFirst * 4 + 3
                 else 0)))"

text \<open>The chain of tests on the relation, after the two entities are located.\<close>

definition relation_cost ::
  "PlannerNode \<Rightarrow> relation \<Rightarrow> string option \<Rightarrow> string option
   \<Rightarrow> int \<times> int \<times> int \<Rightarrow> int \<times> int \<times> int \<Rightarrow> int" where
  "relation_cost n rel first second floc sloc =
     (case floc of (firstStackIndex, firstStackPos, numAboveFirst) \<Rightarrow>
      case sloc of (secondStackIndex, secondStackPos, numAboveSecond) \<Rightarrow>
      let stackDifference = \<bar>firstStackIndex - secondStackIndex\<bar>;
          holdingOneOfThem = (firstStackPos = - 1 \<or> secondStackPos = - 1)
      in
       (if rel \<in> {Leftof, Rightof}
           \<and> \<not> (firstStackIndex < secondStackIndex \<and> \<not> holdingOneOfThem)
        then leftof_cost n first second firstStackIndex numAboveFirst
               secondStackIndex numAboveSecond holdingOneOfThem
        else if rel = Beside \<and> \<not> (stackDifference = 1 \<and> \<not> holdingOneOfThem)
        then (if \<not> holdingOneOfThem
              then min (\<bar>firstStackIndex - arm n\<bar> + numAboveFirst * 4)
                       (\<bar>secondStackIndex - arm n\<bar> + numAboveSecond * 4)
                     + 1 + \<bar>firstStackIndex - secondStackIndex\<bar>
              else if strict_eq (holding n) first then \<bar>secondStackIndex - arm n\<bar>
              else \<bar>firstStackIndex - arm n\<bar>)
        else if rel \<in> {Inside, Ontop}
                \<and> \<not> (stackDifference = 0 \<and> firstStackPos = secondStackPos + 1
                       \<and> \<not> holdingOneOfThem)
        then (if \<not> strict_eq (holding n) first
              then \<bar>firstStackIndex - arm n\<bar> + numAboveFirst * 4 + 1
                     + \<bar>firstStackIndex - secondStackIndex\<bar> + numAboveSecond * 4 + 1
              else \<bar>secondStackIndex - arm n\<bar> + numAboveSecond * 4 + 1)
        else if rel \<in> {Above, Under}
                \<and> \<not> (stackDifference = 0 \<and> firstStackPos > secondStackPos
                       \<and> \<not> holdingOneOfThem)
        then (if \<not> strict_eq (holding n) first
              then \<bar>firstStackIndex - arm n\<bar> + numAboveFirst * 4 + 1
                     + \<bar>firstStackIndex - secondStackIndex\<bar> + 1
              else \<bar>secondStackIndex - arm n\<bar> + 1)
        else 0))"

definition two_entity_cost ::
  "PlannerNode \<Rightarrow> relation \<Rightarrow> string option \<Rightarrow> string option \<Rightarrow> error + int" where
  "two_entity_cost n rel first second =
     (case locate n first of
        Inl err \<Rightarrow> Inl err
      | Inr floc \<Rightarrow>
         (case locate n second of
            Inl err \<Rightarrow> Inl err
          | Inr sloc \<Rightarrow> Inr (relation_cost n rel first second floc sloc)))"

text \<open>
  The body of the inner \<^verbatim>\<open>forEach\<close>: what one condition adds to \<^verbatim>\<open>_heuristics\<close>.
  For \<^verbatim>\<open>rightof\<close> and \<^verbatim>\<open>under\<close> the two arguments are swapped and the first is
  located again.
\<close>

definition condition_cost :: "PlannerNode \<Rightarrow> Literal \<Rightarrow> error + int" where
  "condition_cost n condition =
     (case locate n (arg condition 0) of
        Inl err \<Rightarrow> Inl err
      | Inr (firstStackIndex, firstStackPos, numAboveFirst) \<Rightarrow>
          if relation condition = Holding \<and> \<not> strict_eq (holding n) (arg condition 0)
          then Inr (\<bar>firstStackIndex - arm n\<bar> + numAboveFirst * 4
                    + (if truthy (holding n) then 2 else 1))
          else if relation condition \<in> {Rightof, Under}
          then two_entity_cost n (relation condition) (arg condition 1) (arg condition 0)
          else two_entity_cost n (relation condition) (arg condition 0) (arg condition 1))"

text \<open>The inner \<^verbatim>\<open>forEach\<close>, with the accumulator \<^verbatim>\<open>_heuristics\<close>.\<close>

fun conjunction_cost :: "PlannerNode \<Rightarrow> Literal list \<Rightarrow> int \<Rightarrow> error + int" where
  "conjunction_cost n [] acc = Inr acc"
| "conjunction_cost n (c # cs) acc =
     (case condition_cost n c of
        Inl err \<Rightarrow> Inl err
      | Inr v \<Rightarrow> conjunction_cost n cs (acc + v))"

text \<open>The outer \<^verbatim>\<open>forEach\<close>, pushing onto \<^verbatim>\<open>result\<close>.\<close>

fun all_costs :: "PlannerNode \<Rightarrow> DNFFormula \<Rightarrow> int list \<Rightarrow> error + int list" where
  "all_costs n [] result = Inr result"
| "all_costs n (interpretation # rest) result =
     (case conjunction_cost n interpretation 0 of
        Inl err \<Rightarrow> Inl err
      | Inr h \<Rightarrow> all_costs n rest (result @ [h]))"

text \<open>A cost estimate: an integer, or the \<^verbatim>\<open>Infinity\<close> that \<^verbatim>\<open>Math.min\<close> gives for no
  argument.\<close>

datatype number = Num int | Infinity

fun Math_min :: "int list \<Rightarrow> number" where
  "Math_min [] = Infinity"
| "Math_min (x # xs) = (case Math_min xs of Infinity \<Rightarrow> Num x | Num m \<Rightarrow> Num (min x m))"

definition heuristics :: "DNFFormula \<Rightarrow> PlannerNode \<Rightarrow> error + number" where
  "heuristics interpretations n =
     (case all_costs n interpretations [] of
        Inl err \<Rightarrow> Inl err
      | Inr result \<Rightarrow> Inr (Math_min result))"

section \<open>The goal test\<close>

text \<open>The final chain of tests on the relation, for two entities found in stacks.\<close>

fun relation_fulfilled :: "relation \<Rightarrow> int \<Rightarrow> int \<Rightarrow> int \<Rightarrow> int \<Rightarrow> bool" where
  "relation_fulfilled Leftof fi fp si sp = (fi < si)"
| "relation_fulfilled Rightof fi fp si sp = (fi > si)"
| "relation_fulfilled Beside fi fp si sp = (\<bar>fi - si\<bar> = 1)"
| "relation_fulfilled Inside fi fp si sp = (\<not> (\<not> (fp - sp = 1) \<or> fi \<noteq> si))"
| "relation_fulfilled Ontop fi fp si sp = (\<not> (\<not> (fp - sp = 1) \<or> fi \<noteq> si))"
| "relation_fulfilled Above fi fp si sp = (\<not> (\<not> (fp > sp) \<or> fi \<noteq> si))"
| "relation_fulfilled Under fi fp si sp = (\<not> (\<not> (fp < sp) \<or> fi \<noteq> si))"
| "relation_fulfilled Holding fi fp si sp = True"

text \<open>
  The body of the inner \<^verbatim>\<open>for\<close> loop: whether \<^verbatim>\<open>conditionFulfilled\<close> stays true.
  (The diagnostic counter \<^verbatim>\<open>goalCount\<close> is left out.)
\<close>

definition condition_fulfilled :: "objects \<Rightarrow> PlannerNode \<Rightarrow> Literal \<Rightarrow> error + bool" where
  "condition_fulfilled objs n condition =
     (if relation condition = Holding then Inr (strict_eq (holding n) (arg condition 0))
      else
       (case getStackIndex (stacks n) (arg condition 0) None of
          None \<Rightarrow> Inr False
        | Some firstStackIndex \<Rightarrow>
           (case stack_at (stacks n) firstStackIndex of
              Inl err \<Rightarrow> Inl err
            | Inr fs \<Rightarrow>
               if arg condition 1 \<noteq> Some ''floor'' then
                 (case getStackIndex (stacks n) (arg condition 1) None of
                    None \<Rightarrow> Inr False
                  | Some secondStackIndex \<Rightarrow>
                     (case stack_at (stacks n) secondStackIndex of
                        Inl err \<Rightarrow> Inl err
                      | Inr ss \<Rightarrow>
                         (case lookup_entity objs (arg condition 1) of
                            Inl err \<Rightarrow> Inl err
                          | Inr secondType \<Rightarrow>
                              Inr (relation_fulfilled (relation condition)
                                     firstStackIndex (indexOf fs (arg condition 0))
                                     secondStackIndex (indexOf ss (arg condition 1))))))
               else Inr (\<not> (relation condition = Ontop \<and> indexOf fs (arg condition 0) \<noteq> 0)))))"

text \<open>The inner loop runs while \<^verbatim>\<open>conditionFulfilled\<close>, the outer one while not
  \<^verbatim>\<open>_goal\<close>.\<close>

fun conjunction_fulfilled :: "objects \<Rightarrow> PlannerNode \<Rightarrow> Literal list \<Rightarrow> error + bool" where
  "conjunction_fulfilled objs n [] = Inr True"
| "conjunction_fulfilled objs n (c # cs) =
     (case condition_fulfilled objs n c of
        Inl err \<Rightarrow> Inl err
      | Inr ok \<Rightarrow> if ok then conjunction_fulfilled objs n cs else Inr False)"

fun goal_loop :: "objects \<Rightarrow> PlannerNode \<Rightarrow> DNFFormula \<Rightarrow> error + bool" where
  "goal_loop objs n [] = Inr False"
| "goal_loop objs n (interpretation # rest) =
     (case conjunction_fulfilled objs n interpretation of
        Inl err \<Rightarrow> Inl err
      | Inr ok \<Rightarrow> if ok then Inr True else goal_loop objs n rest)"

definition goal :: "DNFFormula \<Rightarrow> objects \<Rightarrow> PlannerNode \<Rightarrow> error + bool" where
  "goal interpretations objs n = goal_loop objs n interpretations"

section \<open>The search engine\<close>

text \<open>
  \<^verbatim>\<open>QueueElement\<close>: the constructor stores \<open>f = g + h\<close>. An estimate of
  \<^verbatim>\<open>Infinity\<close> makes the sum \<^verbatim>\<open>Infinity\<close>.
\<close>

datatype 'n QueueElement =
  QueueElement (q_parent: "'n QueueElement option") (q_node: 'n) (q_g: int) (q_f: number)

fun num_add :: "int \<Rightarrow> number \<Rightarrow> number" where
  "num_add a (Num b) = Num (a + b)"
| "num_add a Infinity = Infinity"

definition new_QueueElement ::
  "'n QueueElement option \<Rightarrow> 'n \<Rightarrow> int \<Rightarrow> number \<Rightarrow> 'n QueueElement" where
  "new_QueueElement p x gc h = QueueElement p x gc (num_add gc h)"

record 'n SearchResult =
  path :: "'n list"
  path_cost :: int

text \<open>The order of the estimates, \<^verbatim>\<open>Infinity\<close> last.\<close>

fun num_le :: "number \<Rightarrow> number \<Rightarrow> bool" where
  "num_le (Num a) (Num b) = (a \<le> b)"
| "num_le x Infinity = True"
| "num_le Infinity (Num b) = False"

text \<open>
  Modelled from the spec: \<^verbatim>\<open>collections.PriorityQueue\<close> (\<^verbatim>\<open>lib/collections.ts\<close>) is
  not among the sources. The spec has the frontier as ``a priority collection
  ordered by ascending f'' from which the search pops ``the lowest-f node''. The
  queue is the list of its elements in the order of their insertion;
  \<open>dequeue\<close> removes the first element of least \<open>f\<close>, which \<open>lowest\<close> finds.
\<close>

fun lowest :: "'n QueueElement \<Rightarrow> 'n QueueElement list \<Rightarrow> 'n QueueElement" where
  "lowest m [] = m"
| "lowest m (x # xs) = lowest (if num_le (q_f m) (q_f x) then m else x) xs"

fun dequeue :: "'n QueueElement list \<Rightarrow> ('n QueueElement \<times> 'n QueueElement list) option" where
  "dequeue [] = None"
| "dequeue (x # xs) = Some (lowest x xs, remove1 (lowest x xs) (x # xs))"

text \<open>
  Modelled from the spec: \<^verbatim>\<open>collections.Set\<close> (\<^verbatim>\<open>lib/collections.ts\<close>) is not among
  the sources. The spec has the closed set as ``a set of previously expanded State
  values, compared by structural equality''. The set tells its elements apart by
  the key \<open>toStr\<close> gives them (for an object, what its \<^verbatim>\<open>toString\<close> returns);
  it is the list of its elements in the order of their insertion.
\<close>

definition contains :: "('n \<Rightarrow> 'k) \<Rightarrow> 'n list \<Rightarrow> 'n \<Rightarrow> bool" where
  "contains toStr vs x = (toStr x \<in> toStr ` set vs)"

definition set_add :: "('n \<Rightarrow> 'k) \<Rightarrow> 'n list \<Rightarrow> 'n \<Rightarrow> 'n list" where
  "set_add toStr vs x = (if contains toStr vs x then vs else vs @ [x])"

text \<open>
  \<^verbatim>\<open>JSON.stringify\<close> of the object literal in \<^verbatim>\<open>PlannerNode.toString\<close>, as the JSON
  value whose text it writes (the text of a JSON value determines the value).
\<close>

datatype json = JNull | JNumber int | JString string | JArray "json list"
  | JObject "(string \<times> json) list"

definition toString :: "PlannerNode \<Rightarrow> json" where
  "toString n =
     JObject [(''stacks'', JArray (map (\<lambda>s. JArray (map JString s)) (stacks n))),
              (''holding'', (case holding n of None \<Rightarrow> JNull | Some h \<Rightarrow> JString h)),
              (''arm'', JNumber (arm n))]"

text \<open>The loop that follows the \<^verbatim>\<open>parent\<close> references from the goal element.\<close>

fun backtrack :: "'n QueueElement \<Rightarrow> 'n list" where
  "backtrack (QueueElement p x gc fc) =
     x # (case p of None \<Rightarrow> [] | Some q \<Rightarrow> backtrack q)"

text \<open>The \<^verbatim>\<open>for\<close> loop over the outgoing edges of the expanded node.\<close>

fun add_neighbours ::
  "('n \<Rightarrow> 'k) \<Rightarrow> ('n \<Rightarrow> error + number) \<Rightarrow> 'n list \<Rightarrow> 'n QueueElement \<Rightarrow> 'n Edge list
   \<Rightarrow> 'n QueueElement list \<Rightarrow> error + 'n QueueElement list" where
  "add_neighbours toStr heur vs current [] frontier = Inr frontier"
| "add_neighbours toStr heur vs current (edge # edges) frontier =
     (if \<not> contains toStr vs (to_node edge)
      then (case heur (to_node edge) of
              Inl err \<Rightarrow> Inl err
            | Inr h \<Rightarrow>
                add_neighbours toStr heur vs current edges
                  (frontier @ [new_QueueElement (Some current) (to_node edge)
                                 (q_g current + cost edge) h]))
      else add_neighbours toStr heur vs current edges frontier)"

text \<open>
  The state of the \<^verbatim>\<open>while\<close> loop. The wall clock is a parameter: \<open>clock k\<close> is
  what the \<open>k\<close>-th call of \<^verbatim>\<open>new Date().getTime()\<close> returns, in milliseconds, the
  call that sets \<^verbatim>\<open>startTime\<close> being call \<open>0\<close>; \<open>ticks\<close> counts the calls made.
\<close>

record 'n search_state =
  frontier :: "'n QueueElement list"
  visited :: "'n list"
  ticks :: nat

datatype ('r, 's) iteration = Done 'r | Next 's

text \<open>
  What a turn of the \<^verbatim>\<open>while\<close> loop does with the element it pops, when the search
  goes on: the element is dropped (\<^verbatim>\<open>// Skip already visited nodes\<close>), or its node is
  expanded, that is, added to the closed set and asked for its outgoing edges. Both
  carry the frontier that the pop leaves.
\<close>

datatype 'n decision =
    Skip "'n QueueElement list"
  | Expand "'n QueueElement" "'n QueueElement list"

text \<open>
  A turn of the loop up to the statement \<^verbatim>\<open>visited.add(current.node)\<close>: the test of
  the loop, the test of the budget, the pop, the test \<^verbatim>\<open>!visited.contains(current.node)\<close>
  and the goal test with the path it returns.
\<close>

definition pop_decision ::
  "('n \<Rightarrow> 'k) \<Rightarrow> ('n \<Rightarrow> error + bool) \<Rightarrow> int \<Rightarrow> (nat \<Rightarrow> int) \<Rightarrow> 'n search_state
   \<Rightarrow> (error + 'n SearchResult, 'n decision) iteration" where
  "pop_decision toStr is_goal timeout clock s =
     (if frontier s = [] then Done (Inl NoPath)
      else if clock (Suc (ticks s)) - clock 0 > timeout * 1000 then Done (Inl Timeout)
      else case dequeue (frontier s) of
        None \<Rightarrow> Done (Inl TypeError)
      | Some (current, rest) \<Rightarrow>
          if \<not> contains toStr (visited s) (q_node current) then
            (case is_goal (q_node current) of
               Inl err \<Rightarrow> Done (Inl err)
             | Inr reached \<Rightarrow>
                 if reached
                 then Done (Inr \<lparr>path = rev (backtrack current), path_cost = q_g current\<rparr>)
                 else Next (Expand current rest))
          else Next (Skip rest))"

text \<open>
  One turn of the \<^verbatim>\<open>while\<close> loop (with its test). \<^verbatim>\<open>graph.outgoingEdges\<close> is called
  in the turns that expand, and nowhere else.
\<close>

definition search_step ::
  "('n \<Rightarrow> error + 'n Edge list) \<Rightarrow> ('n \<Rightarrow> 'k) \<Rightarrow> ('n \<Rightarrow> error + bool)
   \<Rightarrow> ('n \<Rightarrow> error + number) \<Rightarrow> int \<Rightarrow> (nat \<Rightarrow> int) \<Rightarrow> 'n search_state
   \<Rightarrow> (error + 'n SearchResult, 'n search_state) iteration" where
  "search_step edges toStr is_goal heur timeout clock s =
     (case pop_decision toStr is_goal timeout clock s of
        Done r \<Rightarrow> Done r
      | Next (Skip rest) \<Rightarrow>
          Next \<lparr>frontier = rest, visited = visited s, ticks = Suc (ticks s)\<rparr>
      | Next (Expand current rest) \<Rightarrow>
          (case edges (q_node current) of
             Inl err \<Rightarrow> Done (Inl err)
           | Inr es \<Rightarrow>
              (case add_neighbours toStr heur
                      (set_add toStr (visited s) (q_node current)) current es rest of
                 Inl err \<Rightarrow> Done (Inl err)
               | Inr frontier' \<Rightarrow>
                   Next \<lparr>frontier = frontier',
                         visited = set_add toStr (visited s) (q_node current),
                         ticks = Suc (ticks s)\<rparr>)))"

text \<open>The loop may run for ever (an infinite graph, a clock that stands still): \<open>None\<close>.\<close>

partial_function (option) search_loop ::
  "('n \<Rightarrow> error + 'n Edge list) \<Rightarrow> ('n \<Rightarrow> 'k) \<Rightarrow> ('n \<Rightarrow> error + bool)
   \<Rightarrow> ('n \<Rightarrow> error + number) \<Rightarrow> int \<Rightarrow> (nat \<Rightarrow> int) \<Rightarrow> 'n search_state
   \<Rightarrow> (error + 'n SearchResult) option" where
  "search_loop edges toStr is_goal heur timeout clock s =
     (case search_step edges toStr is_goal heur timeout clock s of
        Done r \<Rightarrow> Some r
      | Next s' \<Rightarrow> search_loop edges toStr is_goal heur timeout clock s')"

declare search_loop.simps [code]

definition initial_state :: "'n \<Rightarrow> number \<Rightarrow> 'n search_state" where
  "initial_state start h =
     \<lparr>frontier = [new_QueueElement None start 0 h], visited = [], ticks = 0\<rparr>"

text \<open>
  \<^verbatim>\<open>aStarSearch(graph, start, goal, heuristics, timeout)\<close>; of the graph the search
  uses \<^verbatim>\<open>outgoingEdges\<close> only.
\<close>

definition aStarSearch ::
  "('n \<Rightarrow> error + 'n Edge list) \<Rightarrow> ('n \<Rightarrow> 'k) \<Rightarrow> 'n \<Rightarrow> ('n \<Rightarrow> error + bool)
   \<Rightarrow> ('n \<Rightarrow> error + number) \<Rightarrow> int \<Rightarrow> (nat \<Rightarrow> int) \<Rightarrow> (error + 'n SearchResult) option" where
  "aStarSearch edges toStr start is_goal heur timeout clock =
     (case heur start of
        Inl err \<Rightarrow> Some (Inl err)
      | Inr h \<Rightarrow> search_loop edges toStr is_goal heur timeout clock (initial_state start h))"

text \<open>The state of the loop after \<open>k\<close> turns, if it is still running then.\<close>

fun state_after ::
  "('n \<Rightarrow> error + 'n Edge list) \<Rightarrow> ('n \<Rightarrow> 'k) \<Rightarrow> ('n \<Rightarrow> error + bool)
   \<Rightarrow> ('n \<Rightarrow> error + number) \<Rightarrow> int \<Rightarrow> (nat \<Rightarrow> int) \<Rightarrow> nat \<Rightarrow> 'n search_state
   \<Rightarrow> 'n search_state option" where
  "state_after edges toStr is_goal heur timeout clock 0 s = Some s"
| "state_after edges toStr is_goal heur timeout clock (Suc k) s =
     (case search_step edges toStr is_goal heur timeout clock s of
        Done r \<Rightarrow> None
      | Next s' \<Rightarrow> state_after edges toStr is_goal heur timeout clock k s')"

text \<open>
  The nodes that the first \<open>k\<close> turns of the loop expand, in the order of their
  expansion (the turn that ends the search with an error of \<^verbatim>\<open>outgoingEdges\<close> or of
  \<^verbatim>\<open>heuristics\<close> has expanded its node too).
\<close>

fun expanded_nodes ::
  "('n \<Rightarrow> error + 'n Edge list) \<Rightarrow> ('n \<Rightarrow> 'k) \<Rightarrow> ('n \<Rightarrow> error + bool)
   \<Rightarrow> ('n \<Rightarrow> error + number) \<Rightarrow> int \<Rightarrow> (nat \<Rightarrow> int) \<Rightarrow> nat \<Rightarrow> 'n search_state
   \<Rightarrow> 'n list" where
  "expanded_nodes edges toStr is_goal heur timeout clock 0 s = []"
| "expanded_nodes edges toStr is_goal heur timeout clock (Suc k) s =
     (case pop_decision toStr is_goal timeout clock s of
        Next (Expand current rest) \<Rightarrow> [q_node current]
      | _ \<Rightarrow> [])
     @ (case search_step edges toStr is_goal heur timeout clock s of
          Done r \<Rightarrow> []
        | Next s' \<Rightarrow> expanded_nodes edges toStr is_goal heur timeout clock k s')"

section \<open>The planner\<close>

text \<open>\<^verbatim>\<open>WorldState\<close> is declared in \<^verbatim>\<open>World.ts\<close>; these are the fields the planner reads.\<close>

record WorldState =
  ws_stacks :: "Stack list"
  ws_holding :: "string option"
  ws_arm :: int
  ws_objects :: objects

fun command_letter :: "command \<Rightarrow> string" where
  "command_letter CmdL = ''l''"
| "command_letter CmdR = ''r''"
| "command_letter CmdP = ''p''"
| "command_letter CmdD = ''d''"

text \<open>What the \<^verbatim>\<open>forEach\<close> over the path pushes onto the plan for one node (every
  node after the start carries a command).\<close>

definition plan_step :: "PlannerNode \<Rightarrow> string list" where
  "plan_step n =
     (case description n of None \<Rightarrow> [] | Some d \<Rightarrow> if d = [] then [] else [d])
     @ (case command n of None \<Rightarrow> [] | Some c \<Rightarrow> [command_letter c])"

text \<open>
  \<^verbatim>\<open>planInterpretation\<close> for a command to carry out (the answer to a \<^verbatim>\<open>where\<close>
  query involves no search and is left out). Reading
  \<^verbatim>\<open>interpretations[0][0].relation\<close> raises on a formula without a first literal.
\<close>

definition planInterpretation ::
  "DNFFormula \<Rightarrow> WorldState \<Rightarrow> (nat \<Rightarrow> int) \<Rightarrow> (error + string list) option" where
  "planInterpretation interpretations state clock =
     (case interpretations of
        [] \<Rightarrow> Some (Inl TypeError)
      | [] # rest \<Rightarrow> Some (Inl TypeError)
      | (first # conditions) # rest \<Rightarrow>
       (case aStarSearch (outgoingEdges (ws_objects state)) toString
               \<lparr>stacks = ws_stacks state, holding = ws_holding state, arm = ws_arm state,
                command = None, description = None\<rparr>
               (goal interpretations (ws_objects state))
               (heuristics interpretations) 100 clock of
          None \<Rightarrow> None
        | Some (Inl err) \<Rightarrow> Some (Inl err)
        | Some (Inr result) \<Rightarrow> Some (Inr (concat (map plan_step (tl (path result)))))))"

section \<open>A small world\<close>

definition ex_objects :: objects where
  "ex_objects = [''a'' \<mapsto> \<lparr>form = ''ball'', size' = ''small'', color = ''white''\<rparr>,
                 ''b'' \<mapsto> \<lparr>form = ''box'', size' = ''large'', color = ''red''\<rparr>,
                 ''c'' \<mapsto> \<lparr>form = ''box'', size' = ''large'', color = ''blue''\<rparr>]"

text \<open>Two columns, the small ball \<open>a\<close> in the first, the arm over it.\<close>

definition ex_node :: PlannerNode where
  "ex_node = \<lparr>stacks = [[''a''], []], holding = None, arm = 0, command = None,
               description = None\<rparr>"

definition ex_picked :: PlannerNode where
  "ex_picked = \<lparr>stacks = [[], []], holding = Some ''a'', arm = 0, command = Some CmdP,
                 description = Some ''Picking up the ball.''\<rparr>"

definition ex_moved :: PlannerNode where
  "ex_moved = \<lparr>stacks = [[''a''], []], holding = None, arm = 1, command = Some CmdR,
                description = None\<rparr>"

definition ex_edges :: "PlannerNode Edge list" where
  "ex_edges = [\<lparr>from_node = ex_node, to_node = ex_moved, cost = 1\<rparr>,
               \<lparr>from_node = ex_node, to_node = ex_picked, cost = 1\<rparr>]"

definition ex_world :: "objects \<Rightarrow> WorldState" where
  "ex_world objs = \<lparr>ws_stacks = [[''a''], []], ws_holding = None, ws_arm = 0, ws_objects = objs\<rparr>"

definition ontop_floor :: DNFFormula where
  "ontop_floor = [[\<lparr>polarity = True, relation = Ontop, args = [''a'', ''floor'']\<rparr>]]"

definition holding_a :: DNFFormula where
  "holding_a = [[\<lparr>polarity = True, relation = Holding, args = [''a'']\<rparr>]]"

text \<open>A clock that stands still for the first turn of the loop and has advanced by one
  millisecond at the second.\<close>

definition ex_clock :: "nat \<Rightarrow> int" where
  "ex_clock k = (if k \<le> 1 then 0 else 1)"

text \<open>The loop of the search for \<open>holding_a\<close> from \<open>ex_node\<close> after its first turn.\<close>

definition ex_state :: "PlannerNode search_state" where
  "ex_state =
     \<lparr>frontier = [QueueElement (Some (QueueElement None ex_node 0 (Num 1))) ex_moved 1 (Num 3),
                  QueueElement (Some (QueueElement None ex_node 0 (Num 1))) ex_picked 1 (Num 1)],
      visited = [ex_node], ticks = 1\<rparr>"

text \<open>
  A graph in which every node has the same two edges: one to the node \<open>ex_moved\<close> and
  one to a node of the same stacks, holding and arm that carries another command and
  description. A goal test that holds nowhere and the estimate 0.
\<close>

definition ex_relabelled :: PlannerNode where
  "ex_relabelled = ex_moved\<lparr>command := Some CmdL, description := Some ''Moving left''\<rparr>"

definition ex_twice :: "PlannerNode \<Rightarrow> error + PlannerNode Edge list" where
  "ex_twice n = Inr [\<lparr>from_node = n, to_node = ex_moved, cost = 1\<rparr>,
                     \<lparr>from_node = n, to_node = ex_relabelled, cost = 1\<rparr>]"

definition ex_nowhere :: "PlannerNode \<Rightarrow> error + bool" where
  "ex_nowhere n = Inr False"

definition ex_zero :: "PlannerNode \<Rightarrow> error + number" where
  "ex_zero n = Inr (Num 0)"

definition ex_still :: "nat \<Rightarrow> int" where
  "ex_still k = 0"

text \<open>The loop of the search on that graph from \<open>ex_node\<close> after its first, second and
  third turn: the third turn pops \<open>ex_relabelled\<close>.\<close>

definition ex_first :: "PlannerNode search_state" where
  "ex_first =
     \<lparr>frontier = [QueueElement (Some (QueueElement None ex_node 0 (Num 0))) ex_moved 1 (Num 1),
                  QueueElement (Some (QueueElement None ex_node 0 (Num 0))) ex_relabelled 1
                    (Num 1)],
      visited = [ex_node], ticks = 1\<rparr>"

definition ex_second :: "PlannerNode search_state" where
  "ex_second =
     \<lparr>frontier = [QueueElement (Some (QueueElement None ex_node 0 (Num 0))) ex_relabelled 1
                    (Num 1)],
      visited = [ex_node, ex_moved], ticks = 2\<rparr>"

definition ex_third :: "PlannerNode search_state" where
  "ex_third = \<lparr>frontier = [], visited = [ex_node, ex_moved], ticks = 3\<rparr>"

text \<open>The ball has just been picked and the arm moved on.\<close>

definition ex_carried :: PlannerNode where
  "ex_carried = \<lparr>stacks = [[], []], holding = Some ''a'', arm = 1, command = Some CmdR,
                  description = None\<rparr>"

text \<open>A large box is held over an empty column, another one stands in the first column.\<close>

definition ex_held :: PlannerNode where
  "ex_held = \<lparr>stacks = [[''c''], []], holding = Some ''b'', arm = 1, command = None,
               description = None\<rparr>"

definition ex_dropped :: PlannerNode where
  "ex_dropped = \<lparr>stacks = [[''c''], [''b'']], holding = None, arm = 1, command = Some CmdD,
                  description = Some ''Putting it on the floor.''\<rparr>"

definition ex_held_edges :: "PlannerNode Edge list" where
  "ex_held_edges =
     [\<lparr>from_node = ex_held,
       to_node = \<lparr>stacks = [[''c''], []], holding = Some ''b'', arm = 0, command = Some CmdL,
                  description = None\<rparr>,
       cost = 1\<rparr>,
      \<lparr>from_node = ex_held, to_node = ex_dropped, cost = 1\<rparr>]"

text \<open>The ball in the second of two columns, the arm over it.\<close>

definition ex_right :: PlannerNode where
  "ex_right = \<lparr>stacks = [[], [''a'']], holding = None, arm = 1, command = None,
                description = None\<rparr>"

definition ex_left :: PlannerNode where
  "ex_left = \<lparr>stacks = [[], [''a'']], holding = None, arm = 0, command = Some CmdL,
               description = None\<rparr>"

definition ex_right_edges :: "PlannerNode Edge list" where
  "ex_right_edges =
     [\<lparr>from_node = ex_right, to_node = ex_left, cost = 1\<rparr>,
      \<lparr>from_node = ex_right,
       to_node = \<lparr>stacks = [[], []], holding = Some ''a'', arm = 1, command = Some CmdP,
                  description = Some ''Picking up the ball.''\<rparr>,
       cost = 1\<rparr>]"

text \<open>Two conjunctions of two literals each, and the column of \<open>b\<close> to the left of
  that of \<open>a\<close>.\<close>

definition ex_formula :: DNFFormula where
  "ex_formula =
     [[\<lparr>polarity = True, relation = Holding, args = [''a'']\<rparr>,
       \<lparr>polarity = True, relation = Ontop, args = [''a'', ''floor'']\<rparr>],
      [\<lparr>polarity = True, relation = Leftof, args = [''a'', ''b'']\<rparr>,
       \<lparr>polarity = True, relation = Above, args = [''b'', ''a'']\<rparr>]]"

text \<open>The estimates of the four literals of \<open>ex_formula\<close> on \<open>ex_two\<close>.\<close>

definition ex_est :: "Literal \<Rightarrow> int" where
  "ex_est l = (case relation l of Holding \<Rightarrow> 2 | Ontop \<Rightarrow> 4 | Leftof \<Rightarrow> 4 | r \<Rightarrow> 3)"

definition ex_two :: PlannerNode where
  "ex_two = \<lparr>stacks = [[''b''], [''a'']], holding = None, arm = 0, command = None,
               description = None\<rparr>"


definition ex_leftof :: Literal where
  "ex_leftof = \<lparr>polarity = True, relation = Leftof, args = [''a'', ''b'']\<rparr>"

definition above_floor :: DNFFormula where
  "above_floor = [[\<lparr>polarity = True, relation = Above, args = [''a'', ''floor'']\<rparr>]]"


definition leftof_floor :: DNFFormula where
  "leftof_floor = [[\<lparr>polarity = True, relation = Leftof, args = [''a'', ''floor'']\<rparr>]]"





text \<open>The ball in the first of four columns and the arm over the last; the box \<open>b\<close> of
  the catalog is not in this world.\<close>

definition ex_far :: PlannerNode where
  "ex_far = \<lparr>stacks = [[''a''], [], [], []], holding = None, arm = 3, command = None,
              description = None\<rparr>"


section \<open>Notions used in the statements\<close>

text \<open>The entity ids of a node, with multiplicity: all columns plus the holding slot.\<close>

definition entities :: "PlannerNode \<Rightarrow> string multiset" where
  "entities n = mset (concat (stacks n)) + (case holding n of None \<Rightarrow> {#} | Some h \<Rightarrow> {#h#})"

definition entity_list :: "PlannerNode \<Rightarrow> string list" where
  "entity_list n = concat (stacks n) @ (case holding n of None \<Rightarrow> [] | Some h \<Rightarrow> [h])"

text \<open>
  A node fits a catalog when the arm is over one of the columns and every entity in a
  column or in the gripper has a non-empty id and a catalog entry with a non-empty
  form.
\<close>

definition well_formed :: "objects \<Rightarrow> PlannerNode \<Rightarrow> bool" where
  "well_formed objs n =
     (0 \<le> arm n \<and> arm n < int (length (stacks n)) \<and>
      (\<forall>e \<in> set (entity_list n).
          e \<noteq> [] \<and> (case objs e of None \<Rightarrow> False | Some d \<Rightarrow> form d \<noteq> [])))"

definition top_of :: "Stack \<Rightarrow> string option" where
  "top_of col = (if col = [] then None else Some (last col))"

text \<open>
  The six rules of support legality in the words of the specification: whether the
  entity \<open>below\<close>, the top of the destination column if there is one, forbids the drop
  of the entity \<open>held\<close>.
\<close>

definition support_forbidden :: "ObjectDefinition option \<Rightarrow> ObjectDefinition \<Rightarrow> bool" where
  "support_forbidden below held =
     (case below of
        None \<Rightarrow> False
      | Some t \<Rightarrow>
          (size' t = ''small'' \<and> size' held = ''large'') \<or>
          (form t \<noteq> ''box'' \<and> form held = ''ball'') \<or>
          form t = ''ball'' \<or>
          (form t = ''box'' \<and> form held \<in> {''pyramid'', ''plank'', ''box''}
             \<and> size' t = size' held) \<or>
          (size' t = ''small'' \<and> form t \<in> {''brick'', ''pyramid''} \<and> form held = ''box'') \<or>
          (form t = ''pyramid'' \<and> form held = ''box'' \<and> size' t = size' held))"

text \<open>Something is held, and no rule forbids it on the top of the arm's column.\<close>

definition drop_legal :: "objects \<Rightarrow> PlannerNode \<Rightarrow> bool" where
  "drop_legal objs n =
     (case holding n of
        None \<Rightarrow> False
      | Some h \<Rightarrow>
         (case objs h of
            None \<Rightarrow> False
          | Some held \<Rightarrow>
             (case at_index (stacks n) (arm n) of
                None \<Rightarrow> False
              | Some col \<Rightarrow> \<not> support_forbidden (Option.bind (top_of col) objs) held)))"

text \<open>The edge of a list whose target carries the command \<open>c\<close>, if there is one.\<close>

definition edge_labelled :: "command \<Rightarrow> PlannerNode Edge list \<Rightarrow> PlannerNode Edge option" where
  "edge_labelled c es = find (\<lambda>e. command (to_node e) = Some c) es"

text \<open>
  Where an entity is: the first column that contains it and its height in that
  column, counted from the floor; \<open>None\<close> when no column contains it.
\<close>

definition column_of :: "Stack list \<Rightarrow> string \<Rightarrow> nat option" where
  "column_of sts e =
     (if e \<in> set (concat sts) then Some (length (takeWhile (\<lambda>s. e \<notin> set s) sts)) else None)"

definition position_of :: "Stack \<Rightarrow> string \<Rightarrow> nat" where
  "position_of s e = length (takeWhile (\<lambda>x. x \<noteq> e) s)"

definition location :: "PlannerNode \<Rightarrow> string \<Rightarrow> (nat \<times> nat) option" where
  "location n e =
     (case column_of (stacks n) e of
        None \<Rightarrow> None
      | Some i \<Rightarrow> Some (i, position_of (stacks n ! i) e))"

text \<open>The spatial relations between two located entities, in the words of the
  specification.\<close>

fun relation_holds :: "relation \<Rightarrow> nat \<times> nat \<Rightarrow> nat \<times> nat \<Rightarrow> bool" where
  "relation_holds Leftof (i, p) (j, q) = (i < j)"
| "relation_holds Rightof (i, p) (j, q) = (j < i)"
| "relation_holds Beside (i, p) (j, q) = (i = j + 1 \<or> j = i + 1)"
| "relation_holds Ontop (i, p) (j, q) = (i = j \<and> p = q + 1)"
| "relation_holds Inside (i, p) (j, q) = (i = j \<and> p = q + 1)"
| "relation_holds Above (i, p) (j, q) = (i = j \<and> q < p)"
| "relation_holds Under (i, p) (j, q) = (i = j \<and> p < q)"
| "relation_holds Holding (i, p) (j, q) = True"

text \<open>
  When a literal is satisfied: \<open>holding(x)\<close> when \<open>x\<close> is the held entity; any other
  literal only when its first entity is located in a column, and then, against the
  floor, \<open>ontop\<close> when that entity is at height 0 and every other relation without a
  further test, and against a second entity when that one is located too and the
  relation holds between the two.
\<close>

definition literal_satisfied :: "PlannerNode \<Rightarrow> Literal \<Rightarrow> bool" where
  "literal_satisfied n l =
     (if relation l = Holding
      then (case args l of [] \<Rightarrow> False | x # rest \<Rightarrow> holding n = Some x)
      else (case args l of
              x # y # rest \<Rightarrow>
                (case location n x of
                   None \<Rightarrow> False
                 | Some lx \<Rightarrow>
                     if y = ''floor'' then relation l = Ontop \<longrightarrow> snd lx = 0
                     else (case location n y of
                             None \<Rightarrow> False
                           | Some ly \<Rightarrow> relation_holds (relation l) lx ly))
            | other \<Rightarrow> False))"

text \<open>An entity is placed in a node when it is in one of the columns or held.\<close>

definition placed :: "PlannerNode \<Rightarrow> string \<Rightarrow> bool" where
  "placed n e = (e \<in> set (entity_list n))"

text \<open>A literal names two entities that are both placed.\<close>

definition both_placed :: "PlannerNode \<Rightarrow> Literal \<Rightarrow> bool" where
  "both_placed n l =
     (case args l of x # y # rest \<Rightarrow> placed n x \<and> placed n y | other \<Rightarrow> False)"


text \<open>
  What \<open>locate\<close> computes on a node whose arm is over a column, in terms of
  \<open>location\<close>: an entity that is in no column counts as being at the arm, at
  position \<open>-1\<close>, with nothing above it.
\<close>

definition where_is :: "PlannerNode \<Rightarrow> string option \<Rightarrow> int \<times> int \<times> int" where
  "where_is n e =
     (case e of
        None \<Rightarrow> (arm n, - 1, 0)
      | Some x \<Rightarrow>
         (case location n x of
            None \<Rightarrow> (arm n, - 1, 0)
          | Some (i, p) \<Rightarrow> (int i, int p, int (length (stacks n ! i)) - int p - 1)))"

text \<open>
  The test under which \<open>relation_cost\<close> adds nothing for a relation, on the stack
  indices and positions of its (possibly swapped) first and second entity.
\<close>

fun cost_free :: "relation \<Rightarrow> int \<times> int \<Rightarrow> int \<times> int \<Rightarrow> bool" where
  "cost_free Leftof (fi, fp) (si, sp) = (fi < si \<and> fp \<noteq> - 1 \<and> sp \<noteq> - 1)"
| "cost_free Rightof (fi, fp) (si, sp) = (fi < si \<and> fp \<noteq> - 1 \<and> sp \<noteq> - 1)"
| "cost_free Beside (fi, fp) (si, sp) = (\<bar>fi - si\<bar> = 1 \<and> fp \<noteq> - 1 \<and> sp \<noteq> - 1)"
| "cost_free Inside (fi, fp) (si, sp) = (fi = si \<and> fp = sp + 1 \<and> fp \<noteq> - 1 \<and> sp \<noteq> - 1)"
| "cost_free Ontop (fi, fp) (si, sp) = (fi = si \<and> fp = sp + 1 \<and> fp \<noteq> - 1 \<and> sp \<noteq> - 1)"
| "cost_free Above (fi, fp) (si, sp) = (fi = si \<and> sp < fp \<and> fp \<noteq> - 1 \<and> sp \<noteq> - 1)"
| "cost_free Under (fi, fp) (si, sp) = (fi = si \<and> sp < fp \<and> fp \<noteq> - 1 \<and> sp \<noteq> - 1)"
| "cost_free Holding (fi, fp) (si, sp) = True"



section \<open>Actions keep the entities\<close>

lemma mset_concat_update:
  "i < length xss \<Longrightarrow>
   mset (concat (xss[i := ys])) + mset (xss ! i) = mset (concat xss) + mset ys"
proof (induction xss arbitrary: i)
  case Nil
  then show ?case by simp
next
  case (Cons xs xss)
  show ?case
  proof (cases i)
    case 0
    then show ?thesis by simp
  next
    case (Suc j)
    with Cons.prems have "j < length xss" by simp
    from Cons.IH [OF this] Suc show ?thesis by (simp add: ac_simps)
  qed
qed

lemma stack_at_Inr:
  "stack_at sts a = Inr col \<Longrightarrow> 0 \<le> a \<and> nat a < length sts \<and> sts ! nat a = col"
  by (auto simp: stack_at_def at_index_def split: if_splits)

lemma drop_refused_None [simp]: "drop_refused None hf hs tf ts"
  by (simp add: drop_refused_def)

lemma pick_edge_Some:
  assumes "pick_edge objs n = Inr (Some e)"
  obtains col descr where "holding n = None" "stack_at (stacks n) (arm n) = Inr col" "col \<noteq> []"
    "getDescription n objs (Some (last col)) CmdP = Inr descr"
    "e = new_edge n ((stacks n)[nat (arm n) := butlast col]) (Some (last col)) (arm n) CmdP
           (Some descr)"
  using assms by (auto simp: pick_edge_def split: if_splits sum.splits)

lemma drop_edge_Some:
  assumes "drop_edge objs n = Inr (Some e)"
  obtains col descr h hf hs tf ts where "holding n = Some h"
    "stack_at (stacks n) (arm n) = Inr col"
    "hold_props objs (Some h) = Inr (hf, hs)" "top_props objs col = Inr (tf, ts)"
    "\<not> drop_refused (Some h) hf hs tf ts"
    "getDescription n objs (at_index col (int (length col) - 1)) CmdD = Inr descr"
    "e = new_edge n ((stacks n)[nat (arm n) := col @ [h]]) None (arm n) CmdD (Some descr)"
proof (cases "holding n")
  case None
  with assms show ?thesis
    by (auto simp: drop_edge_def split: if_splits sum.splits prod.splits)
next
  case (Some h)
  with assms that [of h] show ?thesis
    by (auto simp: drop_edge_def split: if_splits sum.splits prod.splits)
qed

lemma edge_for_entities:
  assumes "edge_for objs n c = Inr (Some e)"
  shows "entities (to_node e) = entities n"
proof (cases c)
  case CmdL
  with assms show ?thesis
    by (auto simp: edge_for_def left_edge_def new_edge_def entities_def split: if_splits)
next
  case CmdR
  with assms show ?thesis
    by (auto simp: edge_for_def right_edge_def new_edge_def entities_def split: if_splits)
next
  case CmdP
  with assms have "pick_edge objs n = Inr (Some e)"
    by (simp add: edge_for_def split: if_splits)
  then obtain col descr where
    h: "holding n = None" and col: "stack_at (stacks n) (arm n) = Inr col" "col \<noteq> []"
    and e: "e = new_edge n ((stacks n)[nat (arm n) := butlast col]) (Some (last col)) (arm n)
                  CmdP (Some descr)"
    by (rule pick_edge_Some)
  from stack_at_Inr [OF col(1)] have i: "nat (arm n) < length (stacks n)"
    and at: "stacks n ! nat (arm n) = col" by simp_all
  from col(2) have "butlast col @ [last col] = col" by simp
  then have "mset col = mset (butlast col) + {#last col#}"
    by (metis mset.simps(1) mset.simps(2) mset_append)
  with mset_concat_update [OF i, of "butlast col"] at
  have "(mset (concat ((stacks n)[nat (arm n) := butlast col])) + {#last col#})
          + mset (butlast col)
        = mset (concat (stacks n)) + mset (butlast col)"
    by (simp only: ac_simps)
  then have "mset (concat ((stacks n)[nat (arm n) := butlast col])) + {#last col#}
        = mset (concat (stacks n))"
    by (rule add_right_imp_eq)
  with h e show ?thesis by (simp add: entities_def new_edge_def)
next
  case CmdD
  with assms have "drop_edge objs n = Inr (Some e)"
    by (simp add: edge_for_def split: if_splits)
  then obtain col descr h where
    h: "holding n = Some h" and col: "stack_at (stacks n) (arm n) = Inr col"
    and e: "e = new_edge n ((stacks n)[nat (arm n) := col @ [h]]) None (arm n) CmdD (Some descr)"
    by (rule drop_edge_Some)
  from stack_at_Inr [OF col] have i: "nat (arm n) < length (stacks n)"
    and at: "stacks n ! nat (arm n) = col" by simp_all
  from mset_concat_update [OF i, of "col @ [h]"] at
  have "mset (concat ((stacks n)[nat (arm n) := col @ [h]]))
        = mset (concat (stacks n)) + {#h#}"
    by simp
  with h e show ?thesis by (simp add: entities_def new_edge_def)
qed

lemma collect_edges_from:
  "collect_edges objs n cs = Inr es \<Longrightarrow> e \<in> set es \<Longrightarrow>
   \<exists>c \<in> set cs. edge_for objs n c = Inr (Some e)"
proof (induction cs arbitrary: es)
  case Nil
  then show ?case by simp
next
  case (Cons c cs)
  then show ?case
    by (auto split: sum.splits option.splits)
qed

lemma entities_entity_list: "entities n = mset (entity_list n)"
  by (simp add: entities_def entity_list_def split: option.splits)

text \<open>
  C1. Whenever \<^verbatim>\<open>outgoingEdges\<close> returns its edges, the child of each edge carries
  the same multiset of entity ids, over all columns plus the holding slot, as
  the parent: no action creates, destroys or duplicates an entity. In particular
  the child has every entity in exactly one place if and only if the parent has.
\<close>

theorem outgoingEdges_preserves_entities:
  assumes "outgoingEdges objs n = Inr es" and "e \<in> set es"
  shows "entities (to_node e) = entities n
       \<and> (distinct (entity_list (to_node e)) \<longleftrightarrow> distinct (entity_list n))"
proof -
  from collect_edges_from [OF assms [unfolded outgoingEdges_def]]
  obtain c where "edge_for objs n c = Inr (Some e)" by blast
  then have m: "entities (to_node e) = entities n" by (rule edge_for_entities)
  then have "mset (entity_list (to_node e)) = mset (entity_list n)"
    by (simp add: entities_entity_list)
  from mset_eq_imp_distinct_iff [OF this] m show ?thesis by simp
qed

lemma ex_outgoingEdges: "outgoingEdges ex_objects ex_node = Inr ex_edges"
  by code_simp

theorem outgoingEdges_preserves_entities_witness:
  "outgoingEdges ex_objects ex_node = Inr ex_edges
   \<and> \<lparr>from_node = ex_node, to_node = ex_picked, cost = 1\<rparr> \<in> set ex_edges
   \<and> entities ex_picked = entities ex_node
   \<and> distinct (entity_list ex_picked) \<and> distinct (entity_list ex_node)"
proof -
  have m: "\<lparr>from_node = ex_node, to_node = ex_picked, cost = 1\<rparr> \<in> set ex_edges"
    by (simp add: ex_edges_def)
  have d: "distinct (entity_list ex_node)" by (simp add: entity_list_def ex_node_def)
  from outgoingEdges_preserves_entities [OF ex_outgoingEdges m] ex_outgoingEdges m d
  show ?thesis by simp
qed

section \<open>The search on the small world\<close>

lemma ex_heuristics: "heuristics ontop_floor ex_node = Inr (Num 2)"
  by code_simp

lemma ex_goal: "goal ontop_floor objs ex_node = Inr True"
  by (simp add: goal_def ontop_floor_def ex_node_def condition_fulfilled_def arg_def
      getStackIndex_def indexOf_def stack_at_def at_index_def)

lemma ex_search:
  assumes "clock 1 - clock 0 \<le> 100000"
  shows "aStarSearch (outgoingEdges objs) toString ex_node (goal ontop_floor objs)
           (heuristics ontop_floor) 100 clock
         = Some (Inr \<lparr>path = [ex_node], path_cost = 0\<rparr>)"
proof -
  have "search_step (outgoingEdges objs) toString (goal ontop_floor objs)
          (heuristics ontop_floor) 100 clock (initial_state ex_node (Num 2))
        = Done (Inr \<lparr>path = [ex_node], path_cost = 0\<rparr>)"
    using assms
    by (simp add: search_step_def pop_decision_def initial_state_def new_QueueElement_def contains_def ex_goal)
  then show ?thesis
    by (simp add: aStarSearch_def ex_heuristics search_loop.simps)
qed

lemma planInterpretation_search:
  "planInterpretation ((first # conditions) # rest) state clock =
     (case aStarSearch (outgoingEdges (ws_objects state)) toString
               \<lparr>stacks = ws_stacks state, holding = ws_holding state, arm = ws_arm state,
                command = None, description = None\<rparr>
               (goal ((first # conditions) # rest) (ws_objects state))
               (heuristics ((first # conditions) # rest)) 100 clock of
          None \<Rightarrow> None
        | Some (Inl err) \<Rightarrow> Some (Inl err)
        | Some (Inr result) \<Rightarrow> Some (Inr (concat (map plan_step (tl (path result))))))"
  by (simp add: planInterpretation_def)

text \<open>
  C5 (amended). On the instance with two columns, stacks \<open>[[a], []]\<close>, the arm over
  column 0 and nothing held, the goal \<open>ontop(a, floor)\<close> holds at the start state,
  whatever the catalog says of \<open>a\<close>: the entity \<open>a\<close> is at position 0 of its column.
  Unless the 100 seconds have passed at the first pop, the search returns the path
  that consists of the start node, with cost 0, and the plan is empty.
\<close>

theorem start_is_goal:
  assumes "clock 1 - clock 0 \<le> 100000"
  shows "aStarSearch (outgoingEdges objs) toString ex_node (goal ontop_floor objs)
           (heuristics ontop_floor) 100 clock
         = Some (Inr \<lparr>path = [ex_node], path_cost = 0\<rparr>)
       \<and> planInterpretation ontop_floor (ex_world objs) clock = Some (Inr [])"
proof -
  have n: "\<lparr>stacks = ws_stacks (ex_world objs), holding = ws_holding (ex_world objs),
            arm = ws_arm (ex_world objs), command = None, description = None\<rparr> = ex_node"
    and o: "ws_objects (ex_world objs) = objs"
    by (simp_all add: ex_world_def ex_node_def)
  have "planInterpretation ontop_floor (ex_world objs) clock =
        (case aStarSearch (outgoingEdges objs) toString ex_node (goal ontop_floor objs)
                (heuristics ontop_floor) 100 clock of
          None \<Rightarrow> None
        | Some (Inl err) \<Rightarrow> Some (Inl err)
        | Some (Inr result) \<Rightarrow> Some (Inr (concat (map plan_step (tl (path result))))))"
    unfolding ontop_floor_def planInterpretation_search n o ..
  with ex_search [OF assms] show ?thesis by simp
qed

theorem start_is_goal_witness:
  "(\<lambda>k. 7 * int k) 1 - (\<lambda>k. 7 * int k) 0 \<le> 100000
   \<and> aStarSearch (outgoingEdges ex_objects) toString ex_node (goal ontop_floor ex_objects)
           (heuristics ontop_floor) 100 (\<lambda>k. 7 * int k)
         = Some (Inr \<lparr>path = [ex_node], path_cost = 0\<rparr>)
   \<and> planInterpretation ontop_floor (ex_world ex_objects) (\<lambda>k. 7 * int k) = Some (Inr [])"
proof -
  have c: "(\<lambda>k. 7 * int k) 1 - (\<lambda>k. 7 * int k) 0 \<le> 100000" by simp
  from start_is_goal [OF c, of ex_objects] c show ?thesis by simp
qed

text \<open>On that instance the search does not return the plan pick, right, drop of cost 3.\<close>

theorem start_is_goal_counterexample:
  "aStarSearch (outgoingEdges ex_objects) toString ex_node (goal ontop_floor ex_objects)
           (heuristics ontop_floor) 100 (\<lambda>k. 0)
         = Some (Inr \<lparr>path = [ex_node], path_cost = 0\<rparr>)
       \<and> planInterpretation ontop_floor (ex_world ex_objects) (\<lambda>k. 0) = Some (Inr [])"
  by code_simp

section \<open>The time budget\<close>

lemma state_after_ticks:
  "state_after edges toStr is_goal heur timeout clock k s = Some s' \<Longrightarrow> ticks s' = ticks s + k"
proof (induction k arbitrary: s)
  case 0
  then show ?case by simp
next
  case (Suc k)
  then obtain s1 where s1: "search_step edges toStr is_goal heur timeout clock s = Next s1"
    and rest: "state_after edges toStr is_goal heur timeout clock k s1 = Some s'"
    by (auto split: iteration.splits)
  from s1 have "ticks s1 = Suc (ticks s)"
    by (auto simp: search_step_def pop_decision_def
        split: if_splits option.splits sum.splits prod.splits iteration.splits decision.splits)
  with Suc.IH [OF rest] show ?case by simp
qed

lemma search_loop_state_after:
  "state_after edges toStr is_goal heur timeout clock k s = Some s' \<Longrightarrow>
   search_loop edges toStr is_goal heur timeout clock s
   = search_loop edges toStr is_goal heur timeout clock s'"
proof (induction k arbitrary: s)
  case 0
  then show ?case by simp
next
  case (Suc k)
  then obtain s1 where s1: "search_step edges toStr is_goal heur timeout clock s = Next s1"
    and rest: "state_after edges toStr is_goal heur timeout clock k s1 = Some s'"
    by (auto split: iteration.splits)
  from s1 have "search_loop edges toStr is_goal heur timeout clock s
                = search_loop edges toStr is_goal heur timeout clock s1"
    by (subst search_loop.simps) simp
  with Suc.IH [OF rest] show ?case by simp
qed

lemma search_step_timeout:
  "frontier s \<noteq> [] \<Longrightarrow> clock (Suc (ticks s)) - clock 0 > timeout * 1000 \<Longrightarrow>
   search_step edges toStr is_goal heur timeout clock s = Done (Inl Timeout)"
  by (simp add: search_step_def pop_decision_def)

text \<open>
  C6 (amended). The budget is tested once in every turn of the loop, before the pop,
  against the time elapsed since the start (after \<open>k\<close> turns the clock has been read
  \<open>k\<close> times since the start), and the test is \<open>elapsed > budget\<close>. With budget 0
  the search raises the timeout at the first pop at which the clock reads later than
  at the start, and returns no plan then; this holds whether or not the goal holds
  at the start state.
\<close>

theorem budget_zero_timeout:
  assumes h: "heur start = Inr h"
    and run: "state_after edges toStr is_goal heur 0 clock k (initial_state start h) = Some s"
    and pop: "frontier s \<noteq> []"
    and late: "clock (Suc k) > clock 0"
  shows "ticks s = k
       \<and> aStarSearch edges toStr start is_goal heur 0 clock = Some (Inl Timeout)"
proof -
  from state_after_ticks [OF run] have t: "ticks s = k" by (simp add: initial_state_def)
  with late pop have "search_step edges toStr is_goal heur 0 clock s = Done (Inl Timeout)"
    by (simp add: search_step_timeout)
  then have "search_loop edges toStr is_goal heur 0 clock s = Some (Inl Timeout)"
    by (subst search_loop.simps) simp
  with search_loop_state_after [OF run] h t show ?thesis
    by (simp add: aStarSearch_def)
qed

lemma ex_after_one:
  "state_after (outgoingEdges ex_objects) toString (goal holding_a ex_objects)
     (heuristics holding_a) 0 ex_clock 1 (initial_state ex_node (Num 1)) = Some ex_state"
  by code_simp

lemma ex_heuristics_holding: "heuristics holding_a ex_node = Inr (Num 1)"
  by code_simp

theorem budget_zero_timeout_witness:
  "heuristics holding_a ex_node = Inr (Num 1)
   \<and> state_after (outgoingEdges ex_objects) toString (goal holding_a ex_objects)
        (heuristics holding_a) 0 ex_clock 1 (initial_state ex_node (Num 1)) = Some ex_state
   \<and> frontier ex_state \<noteq> [] \<and> ex_clock (Suc 1) > ex_clock 0
   \<and> aStarSearch (outgoingEdges ex_objects) toString ex_node (goal holding_a ex_objects)
        (heuristics holding_a) 0 ex_clock = Some (Inl Timeout)"
proof -
  have p: "frontier ex_state \<noteq> []" by (simp add: ex_state_def)
  have l: "ex_clock (Suc 1) > ex_clock 0" by (simp add: ex_clock_def)
  from budget_zero_timeout [OF ex_heuristics_holding ex_after_one p l]
    ex_heuristics_holding ex_after_one p l
  show ?thesis by simp
qed

text \<open>
  While the clock reads the start time the search goes on: with budget 0 and a goal
  that does not hold at the start state it can return a plan.
\<close>

theorem budget_zero_counterexample:
  "goal holding_a ex_objects ex_node = Inr False \<and>
   aStarSearch (outgoingEdges ex_objects) toString ex_node (goal holding_a ex_objects)
           (heuristics holding_a) 0 (\<lambda>k. 0)
         = Some (Inr \<lparr>path = [ex_node, ex_picked], path_cost = 1\<rparr>)"
  by code_simp

section \<open>The closed set\<close>

lemma set_add_distinct:
  "distinct (map toStr vs) \<Longrightarrow> distinct (map toStr (set_add toStr vs x))"
  by (auto simp: set_add_def contains_def)

lemma search_step_visited:
  assumes "search_step edges toStr is_goal heur timeout clock s = Next s'"
  shows "visited s' = visited s
         \<or> (\<exists>x. visited s' = visited s @ [x] \<and> toStr x \<notin> toStr ` set (visited s))"
  using assms
  by (auto simp: search_step_def pop_decision_def set_add_def contains_def
      split: if_splits option.splits sum.splits prod.splits iteration.splits decision.splits)

lemma state_after_distinct:
  "state_after edges toStr is_goal heur timeout clock k s = Some s' \<Longrightarrow>
   distinct (map toStr (visited s)) \<Longrightarrow> distinct (map toStr (visited s'))"
proof (induction k arbitrary: s)
  case 0
  then show ?case by simp
next
  case (Suc k)
  then obtain s1 where s1: "search_step edges toStr is_goal heur timeout clock s = Next s1"
    and rest: "state_after edges toStr is_goal heur timeout clock k s1 = Some s'"
    by (auto split: iteration.splits)
  from search_step_visited [OF s1] Suc.prems(2) have "distinct (map toStr (visited s1))"
    by auto
  with Suc.IH [OF rest] show ?case .
qed

lemma toString_eq:
  "toString n = toString n' \<longleftrightarrow> stacks n = stacks n' \<and> holding n = holding n' \<and> arm n = arm n'"
proof -
  have inj1: "inj JString" by (simp add: inj_def)
  then have inj2: "inj (\<lambda>s. JArray (map JString s))" by (simp add: inj_def)
  have "map (\<lambda>s. JArray (map JString s)) (stacks n) = map (\<lambda>s. JArray (map JString s)) (stacks n')
        \<longleftrightarrow> stacks n = stacks n'"
    using inj2 by (simp add: inj_map_eq_map)
  then show ?thesis
    by (auto simp: toString_def split: option.splits)
qed

text \<open>A turn expands the node it pops only when the key of the node is not in the
  closed set, and the node is in the closed set from then on.\<close>

lemma pop_decision_Expand:
  "pop_decision toStr is_goal timeout clock s = Next (Expand current rest) \<Longrightarrow>
   toStr (q_node current) \<notin> toStr ` set (visited s)"
  by (auto simp: pop_decision_def contains_def
      split: if_splits option.splits sum.splits prod.splits)

lemma pop_decision_Skip:
  "pop_decision toStr is_goal timeout clock s = Next (Skip rest) \<Longrightarrow>
   search_step edges toStr is_goal heur timeout clock s
   = Next \<lparr>frontier = rest, visited = visited s, ticks = Suc (ticks s)\<rparr>"
  by (simp add: search_step_def)

lemma pop_decision_closed:
  assumes "frontier s \<noteq> []" and "clock (Suc (ticks s)) - clock 0 \<le> timeout * 1000"
    and "dequeue (frontier s) = Some (popped, left)"
    and "toStr (q_node popped) \<in> toStr ` set (visited s)"
  shows "pop_decision toStr is_goal timeout clock s = Next (Skip left)"
  using assms by (simp add: pop_decision_def contains_def)

lemma search_step_Expand:
  assumes "pop_decision toStr is_goal timeout clock s = Next (Expand current rest)"
    and "search_step edges toStr is_goal heur timeout clock s = Next s'"
  shows "visited s' = visited s @ [q_node current]"
  using assms pop_decision_Expand [OF assms(1)]
  by (auto simp: search_step_def set_add_def contains_def split: sum.splits)

lemma search_step_Done:
  "pop_decision toStr is_goal timeout clock s = Done r \<Longrightarrow>
   search_step edges toStr is_goal heur timeout clock s = Done r"
  by (simp add: search_step_def)

text \<open>The nodes that a run expands from a state on have pairwise distinct keys, none
  of which is in the closed set of that state.\<close>

lemma expanded_nodes_fresh:
  "distinct (map toStr (expanded_nodes edges toStr is_goal heur timeout clock k s))
   \<and> toStr ` set (expanded_nodes edges toStr is_goal heur timeout clock k s)
       \<inter> toStr ` set (visited s) = {}"
proof (induction k arbitrary: s)
  case 0
  then show ?case by simp
next
  case (Suc k)
  show ?case
  proof (cases "pop_decision toStr is_goal timeout clock s")
    case (Done r)
    with search_step_Done [OF Done, of edges heur] show ?thesis by simp
  next
    case (Next d)
    show ?thesis
    proof (cases d)
      case (Skip rest)
      with Next have p: "pop_decision toStr is_goal timeout clock s = Next (Skip rest)" by simp
      from Suc.IH [of "\<lparr>frontier = rest, visited = visited s, ticks = Suc (ticks s)\<rparr>"]
        pop_decision_Skip [OF p, of edges heur] p
      show ?thesis by simp
    next
      case (Expand current rest)
      with Next have p: "pop_decision toStr is_goal timeout clock s = Next (Expand current rest)"
        by simp
      note fresh = pop_decision_Expand [OF p]
      show ?thesis
      proof (cases "search_step edges toStr is_goal heur timeout clock s")
        case (Done r)
        with p fresh show ?thesis by simp
      next
        case (Next s')
        from search_step_Expand [OF p Next] have v: "visited s' = visited s @ [q_node current]" .
        from Suc.IH [of s'] v Next p fresh show ?thesis by auto
      qed
    qed
  qed
qed

text \<open>While the loop runs, the closed set is the list of the nodes expanded so far.\<close>

lemma state_after_visited:
  "state_after edges toStr is_goal heur timeout clock k s = Some s' \<Longrightarrow>
   visited s' = visited s @ expanded_nodes edges toStr is_goal heur timeout clock k s"
proof (induction k arbitrary: s)
  case 0
  then show ?case by simp
next
  case (Suc k)
  then obtain s1 where s1: "search_step edges toStr is_goal heur timeout clock s = Next s1"
    and rest: "state_after edges toStr is_goal heur timeout clock k s1 = Some s'"
    by (auto split: iteration.splits)
  show ?case
  proof (cases "pop_decision toStr is_goal timeout clock s")
    case (Done r)
    with search_step_Done [OF Done, of edges heur] s1 show ?thesis by simp
  next
    case (Next d)
    show ?thesis
    proof (cases d)
      case (Skip r)
      with Next have p: "pop_decision toStr is_goal timeout clock s = Next (Skip r)" by simp
      from pop_decision_Skip [OF p, of edges heur] s1 have "visited s1 = visited s" by auto
      with Suc.IH [OF rest] s1 p show ?thesis by simp
    next
      case (Expand current r)
      with Next have p: "pop_decision toStr is_goal timeout clock s = Next (Expand current r)"
        by simp
      from search_step_Expand [OF p s1] Suc.IH [OF rest] s1 p show ?thesis by simp
    qed
  qed
qed

text \<open>
  C10. The key of a node in the closed set, its \<^verbatim>\<open>toString\<close>, is equal for two nodes
  exactly when their stacks, holding and arm are equal: the command and the
  description are not part of it. Within one call of the search, from the start node
  on: the nodes that the turns of the loop expand have pairwise distinct keys, so no
  two of them have equal stacks, holding and arm, and no state is expanded more than
  once; while the loop runs, the closed set is the list of the nodes expanded so far.
  A turn expands the node it pops only when the key of the node is not in the closed
  set; when the key is in the closed set the turn drops the popped element and does
  nothing else: whatever the graph, the goal test and the estimate are, the frontier
  is what the pop left of it and the closed set is as it was.
\<close>

theorem closed_set_by_state:
  "(toString n = toString n'
      \<longleftrightarrow> stacks n = stacks n' \<and> holding n = holding n' \<and> arm n = arm n')
   \<and> distinct (map toString
        (expanded_nodes edges toString is_goal heur timeout clock k (initial_state start h)))
   \<and> (state_after edges toString is_goal heur timeout clock k (initial_state start h) = Some s
        \<longrightarrow> distinct (map toString (visited s))
            \<and> visited s
              = expanded_nodes edges toString is_goal heur timeout clock k (initial_state start h))
   \<and> (pop_decision toString is_goal timeout clock s2 = Next (Expand current rest)
        \<longrightarrow> toString (q_node current) \<notin> toString ` set (visited s2))
   \<and> (frontier s0 \<noteq> [] \<and> clock (Suc (ticks s0)) - clock 0 \<le> timeout * 1000
      \<and> dequeue (frontier s0) = Some (popped, left)
      \<and> toString (q_node popped) \<in> toString ` set (visited s0)
        \<longrightarrow> pop_decision toString is_goal timeout clock s0 = Next (Skip left)
            \<and> search_step edges toString is_goal heur timeout clock s0
              = Next \<lparr>frontier = left, visited = visited s0, ticks = Suc (ticks s0)\<rparr>)
   \<and> (search_step edges toString is_goal heur timeout clock s0 = Next s1
        \<longrightarrow> visited s1 = visited s0
            \<or> (\<exists>x. visited s1 = visited s0 @ [x]
                    \<and> toString x \<notin> toString ` set (visited s0)))"
proof (intro conjI impI)
  show "toString n = toString n'
        \<longleftrightarrow> stacks n = stacks n' \<and> holding n = holding n' \<and> arm n = arm n'"
    by (rule toString_eq)
next
  from expanded_nodes_fresh [of toString edges is_goal heur timeout clock k "initial_state start h"]
  show "distinct (map toString
          (expanded_nodes edges toString is_goal heur timeout clock k (initial_state start h)))"
    by simp
next
  assume "state_after edges toString is_goal heur timeout clock k (initial_state start h) = Some s"
  from state_after_distinct [OF this] show "distinct (map toString (visited s))"
    by (simp add: initial_state_def)
next
  assume "state_after edges toString is_goal heur timeout clock k (initial_state start h) = Some s"
  from state_after_visited [OF this]
  show "visited s
        = expanded_nodes edges toString is_goal heur timeout clock k (initial_state start h)"
    by (simp add: initial_state_def)
next
  assume "pop_decision toString is_goal timeout clock s2 = Next (Expand current rest)"
  then show "toString (q_node current) \<notin> toString ` set (visited s2)"
    by (rule pop_decision_Expand)
next
  assume a: "frontier s0 \<noteq> [] \<and> clock (Suc (ticks s0)) - clock 0 \<le> timeout * 1000
      \<and> dequeue (frontier s0) = Some (popped, left)
      \<and> toString (q_node popped) \<in> toString ` set (visited s0)"
  then have p: "pop_decision toString is_goal timeout clock s0 = Next (Skip left)"
    by (simp add: pop_decision_closed)
  then show "pop_decision toString is_goal timeout clock s0 = Next (Skip left)" .
  from pop_decision_Skip [OF p]
  show "search_step edges toString is_goal heur timeout clock s0
        = Next \<lparr>frontier = left, visited = visited s0, ticks = Suc (ticks s0)\<rparr>" .
next
  assume "search_step edges toString is_goal heur timeout clock s0 = Next s1"
  then show "visited s1 = visited s0
             \<or> (\<exists>x. visited s1 = visited s0 @ [x] \<and> toString x \<notin> toString ` set (visited s0))"
    by (rule search_step_visited)
qed

lemma ex_after_three:
  "state_after ex_twice toString ex_nowhere ex_zero 100 ex_still 3 (initial_state ex_node (Num 0))
   = Some ex_third"
  by code_simp

lemma ex_expanded:
  "expanded_nodes ex_twice toString ex_nowhere ex_zero 100 ex_still 3
     (initial_state ex_node (Num 0)) = [ex_node, ex_moved]"
  by code_simp

lemma ex_pop_first:
  "pop_decision toString ex_nowhere 100 ex_still ex_first
   = Next (Expand (QueueElement (Some (QueueElement None ex_node 0 (Num 0))) ex_moved 1 (Num 1))
             [QueueElement (Some (QueueElement None ex_node 0 (Num 0))) ex_relabelled 1 (Num 1)])"
  by code_simp

lemma ex_pop_second:
  "frontier ex_second \<noteq> []"
  "ex_still (Suc (ticks ex_second)) - ex_still 0 \<le> 100 * 1000"
  "dequeue (frontier ex_second)
   = Some (QueueElement (Some (QueueElement None ex_node 0 (Num 0))) ex_relabelled 1 (Num 1), [])"
  "toString ex_relabelled \<in> toString ` set (visited ex_second)"
  by code_simp+

theorem closed_set_by_state_witness:
  "toString ex_moved = toString ex_relabelled
   \<and> expanded_nodes ex_twice toString ex_nowhere ex_zero 100 ex_still 3
       (initial_state ex_node (Num 0)) = [ex_node, ex_moved]
   \<and> state_after ex_twice toString ex_nowhere ex_zero 100 ex_still 3
       (initial_state ex_node (Num 0)) = Some ex_third
   \<and> visited ex_third = [ex_node, ex_moved]
   \<and> distinct (map toString [ex_node, ex_moved])
   \<and> pop_decision toString ex_nowhere 100 ex_still ex_first
     = Next (Expand (QueueElement (Some (QueueElement None ex_node 0 (Num 0))) ex_moved 1 (Num 1))
              [QueueElement (Some (QueueElement None ex_node 0 (Num 0))) ex_relabelled 1 (Num 1)])
   \<and> toString ex_moved \<notin> toString ` set (visited ex_first)
   \<and> frontier ex_second \<noteq> []
   \<and> dequeue (frontier ex_second)
     = Some (QueueElement (Some (QueueElement None ex_node 0 (Num 0))) ex_relabelled 1 (Num 1), [])
   \<and> toString ex_relabelled \<in> toString ` set (visited ex_second)
   \<and> pop_decision toString ex_nowhere 100 ex_still ex_second = Next (Skip [])
   \<and> search_step ex_twice toString ex_nowhere ex_zero 100 ex_still ex_second = Next ex_third"
proof -
  note run = ex_after_three and expanded = ex_expanded and first = ex_pop_first
    and second = ex_pop_second
  have t: "\<lparr>frontier = [], visited = visited ex_second, ticks = Suc (ticks ex_second)\<rparr> = ex_third"
    by (simp add: ex_second_def ex_third_def)
  have v: "visited ex_third = [ex_node, ex_moved]" by (simp add: ex_third_def)
  have f: "stacks ex_moved = stacks ex_relabelled" "holding ex_moved = holding ex_relabelled"
    "arm ex_moved = arm ex_relabelled"
    by (simp_all add: ex_relabelled_def)
  note closed = closed_set_by_state
    [where n = ex_moved and n' = ex_relabelled and edges = ex_twice and is_goal = ex_nowhere
       and heur = ex_zero and timeout = 100 and clock = ex_still and k = 3 and start = ex_node
       and h = "Num 0" and s = ex_third and ?s2.0 = ex_first
       and current = "QueueElement (Some (QueueElement None ex_node 0 (Num 0))) ex_moved 1 (Num 1)"
       and rest = "[QueueElement (Some (QueueElement None ex_node 0 (Num 0))) ex_relabelled 1
                      (Num 1)]"
       and ?s0.0 = ex_second
       and popped = "QueueElement (Some (QueueElement None ex_node 0 (Num 0))) ex_relabelled 1
                       (Num 1)"
       and left = "[]" and ?s1.0 = ex_third]
  from closed f have 1: "toString ex_moved = toString ex_relabelled" by simp
  from closed have "distinct (map toString
      (expanded_nodes ex_twice toString ex_nowhere ex_zero 100 ex_still 3
         (initial_state ex_node (Num 0))))" by (rule conjunct2 [THEN conjunct1])
  then have 2: "distinct (map toString [ex_node, ex_moved])" by (simp only: expanded)
  from closed first have 3: "toString ex_moved \<notin> toString ` set (visited ex_first)" by simp
  from closed second
  have 4: "pop_decision toString ex_nowhere 100 ex_still ex_second = Next (Skip [])"
    and 5: "search_step ex_twice toString ex_nowhere ex_zero 100 ex_still ex_second
            = Next ex_third"
    by (simp_all add: t)
  from 1 expanded run v 2 first 3 second(1,3,4) 4 5 show ?thesis
    by - (intro conjI; assumption)
qed

section \<open>Legality of the drop\<close>

lemma lookup_all_Inr:
  "\<forall>x \<in> set xs. objs x \<noteq> None \<Longrightarrow> \<exists>ds. lookup_all objs xs = Inr ds"
  by (induction xs) (auto simp: lookup_def split: option.splits)

lemma set_splice1: "set (splice1 xs i) \<subseteq> set xs"
  by (auto simp: splice1_def dest: in_set_butlastD in_set_takeD in_set_dropD)

lemma getDescription_Inr:
  assumes "action = CmdP \<or> action = CmdD"
    and "\<forall>x \<in> set (entity_list n). objs x \<noteq> None"
    and "\<And>e. entity = Some e \<Longrightarrow> e \<noteq> [] \<Longrightarrow> objs e \<noteq> None"
  shows "\<exists>d. getDescription n objs entity action = Inr d"
proof (cases "truthy entity")
  case False
  then show ?thesis by (simp add: getDescription_def)
next
  case True
  then obtain e where e: "entity = Some e" "e \<noteq> []"
    by (auto simp: truthy_def split: option.splits)
  with assms(3) obtain d where d: "lookup_entity objs entity = Inr d"
    by (auto simp: lookup_entity_def lookup_def)
  from assms(1) have ex: "existing_entities n entity action
      = Inr (splice1 (entity_list n) (indexOf (entity_list n) entity))"
    by (auto simp: existing_entities_def entity_list_def)
  from assms(2) set_splice1 [of "entity_list n" "indexOf (entity_list n) entity"]
  have "\<forall>x \<in> set (splice1 (entity_list n) (indexOf (entity_list n) entity)). objs x \<noteq> None"
    by blast
  from lookup_all_Inr [OF this] obtain ds where
    "lookup_all objs (splice1 (entity_list n) (indexOf (entity_list n) entity)) = Inr ds" ..
  with True d ex show ?thesis by (simp add: getDescription_def)
qed

lemma well_formed_column:
  assumes "well_formed objs n"
  shows "stack_at (stacks n) (arm n) = Inr (stacks n ! nat (arm n))"
    and "at_index (stacks n) (arm n) = Some (stacks n ! nat (arm n))"
    and "set (stacks n ! nat (arm n)) \<subseteq> set (entity_list n)"
proof -
  from assms have r: "0 \<le> arm n" "nat (arm n) < length (stacks n)"
    by (auto simp: well_formed_def)
  then show "at_index (stacks n) (arm n) = Some (stacks n ! nat (arm n))"
    by (simp add: at_index_def)
  then show "stack_at (stacks n) (arm n) = Inr (stacks n ! nat (arm n))"
    by (simp add: stack_at_def)
  from r(2) have "stacks n ! nat (arm n) \<in> set (stacks n)" by simp
  then show "set (stacks n ! nat (arm n)) \<subseteq> set (entity_list n)"
    by (auto simp: entity_list_def)
qed

lemma well_formed_entity:
  assumes "well_formed objs n" "e \<in> set (entity_list n)"
  obtains d where "e \<noteq> []" "objs e = Some d" "form d \<noteq> []"
  using assms by (auto simp: well_formed_def split: option.splits)

lemma well_formed_dom:
  "well_formed objs n \<Longrightarrow> \<forall>x \<in> set (entity_list n). objs x \<noteq> None"
  by (auto simp: well_formed_def split: option.splits)

lemma pick_edge_total:
  assumes wf: "well_formed objs n"
  shows "\<exists>r. pick_edge objs n = Inr r"
proof (cases "holding n = None \<and> stacks n ! nat (arm n) \<noteq> []")
  case False
  with well_formed_column(1) [OF wf] show ?thesis by (auto simp: pick_edge_def)
next
  case True
  let ?col = "stacks n ! nat (arm n)"
  from True well_formed_column(3) [OF wf] have "last ?col \<in> set (entity_list n)"
    by (meson last_in_set subsetD)
  with well_formed_dom [OF wf] have "objs (last ?col) \<noteq> None" by blast
  with getDescription_Inr [of CmdP n objs "Some (last ?col)"] well_formed_dom [OF wf]
  obtain d where "getDescription n objs (Some (last ?col)) CmdP = Inr d" by auto
  with True well_formed_column(1) [OF wf] show ?thesis by (simp add: pick_edge_def)
qed

lemma drop_refused_iff:
  assumes "h \<noteq> []" "form dt \<noteq> []"
  shows "drop_refused (Some h) (Some (form dh)) (Some (size' dh)) (Some (form dt)) (Some (size' dt))
         \<longleftrightarrow> support_forbidden (Some dt) dh"
  using assms by (auto simp: drop_refused_def support_forbidden_def truthy_def)

lemma drop_refused_floor:
  "\<not> drop_refused (Some h) hf hs None None"
  by (simp add: drop_refused_def truthy_def)

lemma drop_edge_total:
  assumes wf: "well_formed objs n"
  shows "\<exists>r. drop_edge objs n = Inr r \<and> (r \<noteq> None \<longleftrightarrow> drop_legal objs n)"
proof (cases "holding n")
  case None
  let ?col = "stacks n ! nat (arm n)"
  have "\<exists>p. top_props objs ?col = Inr p"
  proof (cases "truthy (at_index ?col 0)")
    case True
    then have "?col \<noteq> []" by (auto simp: truthy_def at_index_def split: if_splits)
    with well_formed_column(3) [OF wf] have "last ?col \<in> set (entity_list n)"
      by (meson last_in_set subsetD)
    with well_formed_dom [OF wf] have "objs (last ?col) \<noteq> None" by blast
    with True show ?thesis by (auto simp: top_props_def lookup_def)
  next
    case False
    then show ?thesis by (simp add: top_props_def)
  qed
  with None well_formed_column(1) [OF wf] show ?thesis
    by (auto simp: drop_edge_def hold_props_def truthy_def drop_legal_def)
next
  case (Some h)
  let ?col = "stacks n ! nat (arm n)"
  from Some have "h \<in> set (entity_list n)" by (simp add: entity_list_def)
  with wf obtain dh where h: "h \<noteq> []" "objs h = Some dh" by (rule well_formed_entity)
  then have hp: "hold_props objs (holding n) = Inr (Some (form dh), Some (size' dh))"
    using Some by (simp add: hold_props_def truthy_def lookup_entity_def lookup_def)
  show ?thesis
  proof (cases "?col = []")
    case True
    then have tp: "top_props objs ?col = Inr (None, None)"
      by (simp add: top_props_def truthy_def at_index_def)
    from True have "at_index ?col (int (length ?col) - 1) = None" by (simp add: at_index_def)
    with getDescription_Inr [of CmdD n objs None] well_formed_dom [OF wf]
    obtain d where "getDescription n objs (at_index ?col (int (length ?col) - 1)) CmdD = Inr d"
      by auto
    with hp tp well_formed_column(1,2) [OF wf] Some h True show ?thesis
      by (simp add: drop_edge_def drop_refused_floor drop_legal_def top_of_def
          support_forbidden_def)
  next
    case False
    with well_formed_column(3) [OF wf] have "last ?col \<in> set (entity_list n)"
      and "?col ! 0 \<in> set (entity_list n)"
      by (meson last_in_set subsetD, meson length_greater_0_conv nth_mem subsetD)
    with wf obtain dt where t: "objs (last ?col) = Some dt" "form dt \<noteq> []" and b: "?col ! 0 \<noteq> []"
      by (metis well_formed_entity)
    from False b t have tp: "top_props objs ?col = Inr (Some (form dt), Some (size' dt))"
      by (simp add: top_props_def truthy_def at_index_def lookup_def)
    from False have "at_index ?col (int (length ?col) - 1) = Some (last ?col)"
      by (simp add: at_index_def last_conv_nth nat_diff_distrib')
    with getDescription_Inr [of CmdD n objs "Some (last ?col)"] well_formed_dom [OF wf] t
    obtain d where "getDescription n objs (at_index ?col (int (length ?col) - 1)) CmdD = Inr d"
      by auto
    with hp tp well_formed_column(1,2) [OF wf] Some h False t
      drop_refused_iff [OF h(1) t(2), of dh]
    show ?thesis
      by (simp add: drop_edge_def drop_legal_def top_of_def)
  qed
qed

lemma edge_for_label:
  assumes "edge_for objs n c = Inr (Some e)"
  shows "command (to_node e) = Some c \<and> cost e = 1 \<and> from_node e = n"
proof (cases c)
  case CmdL
  with assms show ?thesis
    by (auto simp: edge_for_def left_edge_def new_edge_def split: if_splits)
next
  case CmdR
  with assms show ?thesis
    by (auto simp: edge_for_def right_edge_def new_edge_def split: if_splits)
next
  case CmdP
  with assms have "pick_edge objs n = Inr (Some e)"
    by (simp add: edge_for_def split: if_splits)
  then obtain sts hold descr where "e = new_edge n sts hold (arm n) CmdP descr"
    by (rule pick_edge_Some)
  with CmdP show ?thesis by (simp add: new_edge_def)
next
  case CmdD
  with assms have "drop_edge objs n = Inr (Some e)"
    by (simp add: edge_for_def split: if_splits)
  then obtain sts hold descr where "e = new_edge n sts hold (arm n) CmdD descr"
    by (rule drop_edge_Some)
  with CmdD show ?thesis by (simp add: new_edge_def)
qed

lemma outgoingEdges_Inr:
  assumes "outgoingEdges objs n = Inr es"
  obtains rl rr rp rd where
    "edge_for objs n CmdL = Inr rl" "edge_for objs n CmdR = Inr rr"
    "edge_for objs n CmdP = Inr rp" "edge_for objs n CmdD = Inr rd"
    "es = (case rl of None \<Rightarrow> [] | Some e \<Rightarrow> [e]) @ (case rr of None \<Rightarrow> [] | Some e \<Rightarrow> [e])
          @ (case rp of None \<Rightarrow> [] | Some e \<Rightarrow> [e]) @ (case rd of None \<Rightarrow> [] | Some e \<Rightarrow> [e])"
  using assms by (auto simp: outgoingEdges_def split: sum.splits)

lemma edge_labelled_outgoing:
  assumes "outgoingEdges objs n = Inr es"
  shows "edge_for objs n c = Inr (edge_labelled c es)"
proof -
  from assms obtain rl rr rp rd where r:
    "edge_for objs n CmdL = Inr rl" "edge_for objs n CmdR = Inr rr"
    "edge_for objs n CmdP = Inr rp" "edge_for objs n CmdD = Inr rd"
    and es: "es = (case rl of None \<Rightarrow> [] | Some e \<Rightarrow> [e]) @ (case rr of None \<Rightarrow> [] | Some e \<Rightarrow> [e])
          @ (case rp of None \<Rightarrow> [] | Some e \<Rightarrow> [e]) @ (case rd of None \<Rightarrow> [] | Some e \<Rightarrow> [e])"
    by (rule outgoingEdges_Inr)
  have l: "\<And>e. rl = Some e \<Longrightarrow> command (to_node e) = Some CmdL"
    and rr: "\<And>e. rr = Some e \<Longrightarrow> command (to_node e) = Some CmdR"
    and p: "\<And>e. rp = Some e \<Longrightarrow> command (to_node e) = Some CmdP"
    and d: "\<And>e. rd = Some e \<Longrightarrow> command (to_node e) = Some CmdD"
    using r edge_for_label by blast+
  have "edge_labelled c es =
          (case c of CmdL \<Rightarrow> rl | CmdR \<Rightarrow> rr | CmdP \<Rightarrow> rp | CmdD \<Rightarrow> rd)"
    unfolding es edge_labelled_def using l rr p d
    by (cases c; cases rl; cases rr; cases rp; cases rd) simp_all
  with r show ?thesis by (cases c) auto
qed

lemma edge_labelled_eq:
  "outgoingEdges objs n = Inr es \<Longrightarrow> edge_for objs n c = Inr r \<Longrightarrow> edge_labelled c es = r"
  using edge_labelled_outgoing [of objs n es c] by simp

lemma edge_labelled_mem:
  "edge_labelled c es = Some e \<Longrightarrow> e \<in> set es \<and> command (to_node e) = Some c"
  by (auto simp: edge_labelled_def find_Some_iff)

lemma edge_labelled_None:
  "edge_labelled c es = None \<longleftrightarrow> \<not> (\<exists>e \<in> set es. command (to_node e) = Some c)"
  by (auto simp: edge_labelled_def find_None_iff)

lemma outgoingEdges_total:
  assumes wf: "well_formed objs n"
  shows "\<exists>es. outgoingEdges objs n = Inr es"
proof -
  have "\<exists>r. edge_for objs n CmdL = Inr r" "\<exists>r. edge_for objs n CmdR = Inr r"
    by (auto simp: edge_for_def left_edge_def right_edge_def)
  moreover from pick_edge_total [OF wf] have "\<exists>r. edge_for objs n CmdP = Inr r"
    by (auto simp: edge_for_def)
  moreover from drop_edge_total [OF wf] have "\<exists>r. edge_for objs n CmdD = Inr r"
    by (auto simp: edge_for_def)
  ultimately show ?thesis
    by (auto simp: outgoingEdges_def)
qed

text \<open>
  C2 (amended). For a node that fits the catalog, \<^verbatim>\<open>outgoingEdges\<close> returns its edges,
  and there is a drop successor among them if and only if the node was not itself
  produced by a pick (the command that would cancel it is skipped), an entity is
  held, and none of the six rules forbids it on the top of the arm's column. In
  particular a held box over a box of the same size never yields a drop edge, and
  over an empty column a held entity yields one unless the node was produced by a
  pick.
\<close>

theorem drop_edge_iff:
  assumes wf: "well_formed objs n"
  shows "\<exists>es col. outgoingEdges objs n = Inr es \<and> at_index (stacks n) (arm n) = Some col \<and>
           ((\<exists>e \<in> set es. command (to_node e) = Some CmdD)
              \<longleftrightarrow> command n \<noteq> Some CmdP \<and> drop_legal objs n) \<and>
           ((\<exists>h t dh dt. holding n = Some h \<and> objs h = Some dh \<and> top_of col = Some t
                \<and> objs t = Some dt \<and> form dh = ''box'' \<and> form dt = ''box''
                \<and> size' dh = size' dt)
              \<longrightarrow> \<not> (\<exists>e \<in> set es. command (to_node e) = Some CmdD)) \<and>
           (holding n \<noteq> None \<and> col = [] \<and> command n \<noteq> Some CmdP
              \<longrightarrow> (\<exists>e \<in> set es. command (to_node e) = Some CmdD))"
proof -
  let ?col = "stacks n ! nat (arm n)"
  let ?drop = "\<lambda>es. \<exists>e \<in> set es. command (to_node e) = Some CmdD"
  from outgoingEdges_total [OF wf] obtain es where es: "outgoingEdges objs n = Inr es" ..
  note col = well_formed_column(2) [OF wf]
  from drop_edge_total [OF wf] obtain r where
    r: "drop_edge objs n = Inr r" "r \<noteq> None \<longleftrightarrow> drop_legal objs n" by blast
  from r(1) have "edge_for objs n CmdD = Inr (if command n = Some CmdP then None else r)"
    by (simp add: edge_for_def cancels_def)
  from edge_labelled_eq [OF es this] r(2)
  have "edge_labelled CmdD es \<noteq> None \<longleftrightarrow> command n \<noteq> Some CmdP \<and> drop_legal objs n"
    by auto
  then have iff: "?drop es \<longleftrightarrow> command n \<noteq> Some CmdP \<and> drop_legal objs n"
    by (simp add: edge_labelled_None)
  have box: "\<not> drop_legal objs n"
    if "holding n = Some h" "objs h = Some dh" "top_of ?col = Some t" "objs t = Some dt"
      "form dh = ''box''" "form dt = ''box''" "size' dh = size' dt" for h t dh dt
    using that col by (simp add: drop_legal_def support_forbidden_def)
  have floor: "drop_legal objs n" if h: "holding n \<noteq> None" and e: "?col = []"
  proof -
    from h obtain x where x: "holding n = Some x" by blast
    then have "x \<in> set (entity_list n)" by (simp add: entity_list_def)
    with wf obtain d where "objs x = Some d" by (rule well_formed_entity)
    with x e col show ?thesis
      by (simp add: drop_legal_def top_of_def support_forbidden_def)
  qed
  from es col iff box floor show ?thesis by blast
qed

lemma ex_held_outgoing: "outgoingEdges ex_objects ex_held = Inr ex_held_edges"
  by code_simp

lemma ex_held_fits: "well_formed ex_objects ex_held"
  by code_simp

theorem drop_edge_iff_witness:
  "well_formed ex_objects ex_held
   \<and> outgoingEdges ex_objects ex_held = Inr ex_held_edges
   \<and> at_index (stacks ex_held) (arm ex_held) = Some []
   \<and> command ex_held \<noteq> Some CmdP \<and> drop_legal ex_objects ex_held
   \<and> (\<exists>e \<in> set ex_held_edges. command (to_node e) = Some CmdD)"
proof -
  have a: "at_index (stacks ex_held) (arm ex_held) = Some []"
    and c: "command ex_held \<noteq> Some CmdP" and h: "holding ex_held \<noteq> None"
    by (simp_all add: ex_held_def at_index_def)
  from drop_edge_iff [OF ex_held_fits] ex_held_outgoing a c h
  have "(\<exists>e \<in> set ex_held_edges. command (to_node e) = Some CmdD)
        \<and> drop_legal ex_objects ex_held"
    by auto
  with ex_held_fits ex_held_outgoing a c show ?thesis by simp
qed

text \<open>
  A node produced by a pick holds an entity over a column that the pick has emptied,
  and has no drop successor.
\<close>

theorem drop_edge_counterexample:
  "well_formed ex_objects ex_picked \<and> holding ex_picked = Some ''a''
   \<and> at_index (stacks ex_picked) (arm ex_picked) = Some []
   \<and> drop_legal ex_objects ex_picked
   \<and> outgoingEdges ex_objects ex_picked
       = Inr [\<lparr>from_node = ex_picked, to_node = ex_carried, cost = 1\<rparr>]
   \<and> command ex_carried = Some CmdR"
  by code_simp

section \<open>Reversing an action\<close>

lemma left_right:
  assumes es: "outgoingEdges objs n = Inr es"
    and arm: "0 < arm n" "arm n < int (length (stacks n))" and c: "command n \<noteq> Some CmdR"
  shows "\<exists>e. edge_labelled CmdL es = Some e \<and> cost e = 1 \<and>
           (\<forall>m es'. toString m = toString (to_node e) \<and> outgoingEdges objs m = Inr es' \<longrightarrow>
              (if command m = Some CmdL then edge_labelled CmdR es' = None
               else (\<exists>e'. edge_labelled CmdR es' = Some e' \<and> cost e' = 1
                          \<and> toString (to_node e') = toString n)))"
proof -
  let ?e = "new_edge n (stacks n) (holding n) (arm n - 1) CmdL None"
  from edge_labelled_outgoing [OF es, of CmdL] arm c
  have e: "edge_labelled CmdL es = Some ?e"
    by (simp add: edge_for_def cancels_def left_edge_def)
  have "if command m = Some CmdL then edge_labelled CmdR es' = None
        else (\<exists>e'. edge_labelled CmdR es' = Some e' \<and> cost e' = 1
                   \<and> toString (to_node e') = toString n)"
    if m: "toString m = toString (to_node ?e)" and es': "outgoingEdges objs m = Inr es'"
    for m es'
  proof -
    from m have s: "stacks m = stacks n" "holding m = holding n" "arm m = arm n - 1"
      by (simp_all add: toString_eq new_edge_def)
    from s arm have "edge_for objs m CmdR =
        Inr (if command m = Some CmdL then None
             else Some (new_edge m (stacks n) (holding n) (arm n) CmdR None))"
      by (simp add: edge_for_def cancels_def right_edge_def)
    from edge_labelled_eq [OF es' this] show ?thesis
      by (simp add: new_edge_def toString_eq)
  qed
  with e show ?thesis by (auto simp: new_edge_def)
qed

lemma pick_drop:
  assumes es: "outgoingEdges objs n = Inr es"
    and h: "holding n = None" and col: "at_index (stacks n) (arm n) = Some col" "col \<noteq> []"
    and c: "command n \<noteq> Some CmdD"
  shows "\<exists>e. edge_labelled CmdP es = Some e \<and> cost e = 1 \<and>
           (\<forall>m es'. toString m = toString (to_node e) \<and> outgoingEdges objs m = Inr es' \<longrightarrow>
              (if command m = Some CmdP then edge_labelled CmdD es' = None
               else (\<forall>e'. edge_labelled CmdD es' = Some e'
                       \<longrightarrow> cost e' = 1 \<and> toString (to_node e') = toString n)))"
proof -
  from col(1) have sa: "stack_at (stacks n) (arm n) = Inr col" by (simp add: stack_at_def)
  from stack_at_Inr [OF sa] have i: "nat (arm n) < length (stacks n)"
    and at: "stacks n ! nat (arm n) = col" by simp_all
  from edge_labelled_outgoing [OF es, of CmdP] c
  have "pick_edge objs n = Inr (edge_labelled CmdP es)"
    by (simp add: edge_for_def cancels_def)
  with h sa col(2) have "\<exists>descr. edge_labelled CmdP es
        = Some (new_edge n ((stacks n)[nat (arm n) := butlast col]) (Some (last col)) (arm n)
                  CmdP (Some descr))"
    by (simp add: pick_edge_def split: sum.splits) metis
  then obtain descr where
    e: "edge_labelled CmdP es
        = Some (new_edge n ((stacks n)[nat (arm n) := butlast col]) (Some (last col)) (arm n)
                  CmdP (Some descr))" (is "_ = Some ?e") ..
  have "if command m = Some CmdP then edge_labelled CmdD es' = None
        else (\<forall>e'. edge_labelled CmdD es' = Some e'
                \<longrightarrow> cost e' = 1 \<and> toString (to_node e') = toString n)"
    if m: "toString m = toString (to_node ?e)" and es': "outgoingEdges objs m = Inr es'"
    for m es'
  proof (cases "command m = Some CmdP")
    case True
    with edge_labelled_outgoing [OF es', of CmdD] show ?thesis
      by (simp add: edge_for_def cancels_def)
  next
    case False
    from m have s: "stacks m = (stacks n)[nat (arm n) := butlast col]"
      "holding m = Some (last col)" "arm m = arm n"
      by (simp_all add: toString_eq new_edge_def)
    have "cost e' = 1 \<and> toString (to_node e') = toString n"
      if e': "edge_labelled CmdD es' = Some e'" for e'
    proof -
      from edge_labelled_outgoing [OF es', of CmdD] False e'
      have "drop_edge objs m = Inr (Some e')"
        by (simp add: edge_for_def cancels_def)
      then obtain col' descr' h' where h': "holding m = Some h'"
        and col': "stack_at (stacks m) (arm m) = Inr col'"
        and e'': "e' = new_edge m ((stacks m)[nat (arm m) := col' @ [h']]) None (arm m) CmdD
                        (Some descr')"
        by (rule drop_edge_Some)
      from stack_at_Inr [OF col'] s i have "col' = butlast col" by simp
      moreover from h' s have "h' = last col" by simp
      ultimately have "col' @ [h'] = col" using col(2) by simp
      moreover from at have "(stacks n)[nat (arm n) := col] = stacks n"
        by (metis list_update_id)
      ultimately show ?thesis using e'' s h
        by (simp add: new_edge_def toString_eq)
    qed
    with False show ?thesis by simp
  qed
  with e show ?thesis by (auto simp: new_edge_def)
qed


text \<open>
  C8 (amended). Each action is an edge of cost 1, and the reverse action leads back to
  a node with the stacks, the holding and the arm of the original, but not from the
  child itself: \<^verbatim>\<open>outgoingEdges\<close> skips the command that cancels the one that produced
  the node. From a node not produced by move-right, with the arm over a column other
  than the first, there is a move-left edge of cost 1; its target has no move-right
  edge, and every other node with the target's stacks, holding and arm has a
  move-right edge of cost 1 to a node structurally equal to the original. Likewise
  from a node not produced by drop, holding nothing over a non-empty column, there
  is a pick edge of cost 1; its target has no drop edge, and from every other node
  with the target's stacks, holding and arm a drop edge, where the rules allow one,
  costs 1 and leads to a node structurally equal to the original.
\<close>

theorem reverse_actions:
  assumes "outgoingEdges objs n = Inr es"
  shows "(0 < arm n \<and> arm n < int (length (stacks n)) \<and> command n \<noteq> Some CmdR \<longrightarrow>
           (\<exists>e. edge_labelled CmdL es = Some e \<and> cost e = 1 \<and>
             (\<forall>m es'. toString m = toString (to_node e) \<and> outgoingEdges objs m = Inr es' \<longrightarrow>
                (if command m = Some CmdL then edge_labelled CmdR es' = None
                 else (\<exists>e'. edge_labelled CmdR es' = Some e' \<and> cost e' = 1
                            \<and> toString (to_node e') = toString n)))))
       \<and> (holding n = None \<and> at_index (stacks n) (arm n) = Some col \<and> col \<noteq> []
            \<and> command n \<noteq> Some CmdD \<longrightarrow>
           (\<exists>e. edge_labelled CmdP es = Some e \<and> cost e = 1 \<and>
             (\<forall>m es'. toString m = toString (to_node e) \<and> outgoingEdges objs m = Inr es' \<longrightarrow>
                (if command m = Some CmdP then edge_labelled CmdD es' = None
                 else (\<forall>e'. edge_labelled CmdD es' = Some e'
                         \<longrightarrow> cost e' = 1 \<and> toString (to_node e') = toString n)))))"
  using left_right [OF assms] pick_drop [OF assms] by blast

lemma ex_right_outgoing: "outgoingEdges ex_objects ex_right = Inr ex_right_edges"
  by code_simp

lemma ex_left_outgoing: "outgoingEdges ex_objects ex_left = Inr []"
  by code_simp

lemma ex_left_again_outgoing:
  "outgoingEdges ex_objects (ex_left\<lparr>command := None\<rparr>)
   = Inr [\<lparr>from_node = ex_left\<lparr>command := None\<rparr>, to_node = ex_right\<lparr>command := Some CmdR\<rparr>,
           cost = 1\<rparr>]"
  by code_simp

theorem reverse_actions_witness:
  "outgoingEdges ex_objects ex_right = Inr ex_right_edges
   \<and> 0 < arm ex_right \<and> arm ex_right < int (length (stacks ex_right))
   \<and> command ex_right \<noteq> Some CmdR
   \<and> edge_labelled CmdL ex_right_edges
       = Some \<lparr>from_node = ex_right, to_node = ex_left, cost = 1\<rparr>
   \<and> edge_labelled CmdR [] = None
   \<and> edge_labelled CmdR [\<lparr>from_node = ex_left\<lparr>command := None\<rparr>,
                           to_node = ex_right\<lparr>command := Some CmdR\<rparr>, cost = 1\<rparr>]
       = Some \<lparr>from_node = ex_left\<lparr>command := None\<rparr>,
               to_node = ex_right\<lparr>command := Some CmdR\<rparr>, cost = 1\<rparr>
   \<and> toString (ex_right\<lparr>command := Some CmdR\<rparr>) = toString ex_right"
proof -
  have p: "0 < arm ex_right" "arm ex_right < int (length (stacks ex_right))"
    "command ex_right \<noteq> Some CmdR"
    by (simp_all add: ex_right_def)
  have l: "edge_labelled CmdL ex_right_edges
           = Some \<lparr>from_node = ex_right, to_node = ex_left, cost = 1\<rparr>"
    by (simp add: edge_labelled_def ex_right_edges_def ex_left_def)
  from reverse_actions [OF ex_right_outgoing] p l
  have a: "\<forall>m es'. toString m = toString ex_left \<and> outgoingEdges ex_objects m = Inr es' \<longrightarrow>
             (if command m = Some CmdL then edge_labelled CmdR es' = None
              else (\<exists>e'. edge_labelled CmdR es' = Some e' \<and> cost e' = 1
                         \<and> toString (to_node e') = toString ex_right))"
    by auto
  have t: "toString (ex_left\<lparr>command := None\<rparr>) = toString ex_left"
    by (simp add: toString_eq)
  from a [rule_format, of ex_left "[]"] ex_left_outgoing
  have 1: "edge_labelled CmdR [] = None" by (simp add: ex_left_def)
  from a [rule_format, OF conjI [OF t ex_left_again_outgoing]]
  have 2: "edge_labelled CmdR [\<lparr>from_node = ex_left\<lparr>command := None\<rparr>,
                                to_node = ex_right\<lparr>command := Some CmdR\<rparr>, cost = 1\<rparr>]
           = Some \<lparr>from_node = ex_left\<lparr>command := None\<rparr>,
                   to_node = ex_right\<lparr>command := Some CmdR\<rparr>, cost = 1\<rparr>
        \<and> toString (ex_right\<lparr>command := Some CmdR\<rparr>) = toString ex_right"
    by (auto simp: edge_labelled_def toString_eq)
  from ex_right_outgoing p l 1 2 show ?thesis by simp
qed

text \<open>
  After the move to the left from \<open>ex_right\<close> no edge leaves the child: there is no
  move-right edge that would complete the round trip.
\<close>

theorem reverse_actions_counterexample:
  "outgoingEdges ex_objects ex_right = Inr ex_right_edges
   \<and> edge_labelled CmdL ex_right_edges
       = Some \<lparr>from_node = ex_right, to_node = ex_left, cost = 1\<rparr>
   \<and> outgoingEdges ex_objects ex_left = Inr []"
  by code_simp


section \<open>The heuristic as a minimum of sums\<close>

lemma conjunction_cost_sum:
  "\<forall>l \<in> set c. condition_cost n l = Inr (est l) \<Longrightarrow>
   conjunction_cost n c acc = Inr (acc + sum_list (map est c))"
  by (induction c arbitrary: acc) simp_all

lemma all_costs_sums:
  "\<forall>c \<in> set fm. \<forall>l \<in> set c. condition_cost n l = Inr (est l) \<Longrightarrow>
   all_costs n fm result = Inr (result @ map (\<lambda>c. sum_list (map est c)) fm)"
proof (induction fm arbitrary: result)
  case Nil
  then show ?case by simp
next
  case (Cons c fm)
  then have "\<forall>l \<in> set c. condition_cost n l = Inr (est l)" by simp
  from conjunction_cost_sum [OF this, of 0]
  have "conjunction_cost n c 0 = Inr (sum_list (map est c))" by simp
  moreover from Cons have "all_costs n fm (result @ [sum_list (map est c)])
      = Inr ((result @ [sum_list (map est c)]) @ map (\<lambda>c. sum_list (map est c)) fm)"
    by simp
  ultimately show ?case by simp
qed

lemma Math_min_Min: "xs \<noteq> [] \<Longrightarrow> Math_min xs = Num (Min (set xs))"
proof (induction xs)
  case Nil
  then show ?case by simp
next
  case (Cons x xs)
  then show ?case by (cases xs) simp_all
qed

text \<open>
  C4. For a goal formula with at least one conjunction, on a node where the estimate
  of every literal is defined (no access fails), the heuristic is the minimum, over
  the conjunctions, of the sum of the estimates of the literals of the conjunction.
\<close>

theorem heuristics_min_of_sums:
  assumes "interpretations \<noteq> []"
    and "\<forall>c \<in> set interpretations. \<forall>l \<in> set c. condition_cost n l = Inr (est l)"
  shows "heuristics interpretations n
         = Inr (Num (Min ((\<lambda>c. sum_list (map est c)) ` set interpretations)))"
proof -
  from all_costs_sums [OF assms(2), of "[]"]
  have "all_costs n interpretations [] = Inr (map (\<lambda>c. sum_list (map est c)) interpretations)"
    by simp
  with assms(1) show ?thesis
    by (simp add: heuristics_def Math_min_Min)
qed

lemma ex_costs:
  "\<forall>c \<in> set ex_formula. \<forall>l \<in> set c. condition_cost ex_two l = Inr (ex_est l)"
  by code_simp

theorem heuristics_min_of_sums_witness:
  "ex_formula \<noteq> []
   \<and> map (map (condition_cost ex_two)) ex_formula = [[Inr 2, Inr 4], [Inr 4, Inr 3]]
   \<and> map (map ex_est) ex_formula = [[2, 4], [4, 3]]
   \<and> heuristics ex_formula ex_two = Inr (Num 6)"
proof -
  have n: "ex_formula \<noteq> []" by (simp add: ex_formula_def)
  have c: "map (map (condition_cost ex_two)) ex_formula = [[Inr 2, Inr 4], [Inr 4, Inr 3]]"
    by code_simp
  have e: "map (map ex_est) ex_formula = [[2, 4], [4, 3]]"
    by (simp add: ex_formula_def ex_est_def)
  have "Min ((\<lambda>c. sum_list (map ex_est c)) ` set ex_formula) = 6"
    by (simp add: ex_formula_def ex_est_def)
  with heuristics_min_of_sums [OF n ex_costs] n c e show ?thesis by simp
qed


section \<open>The goal test and the satisfied literals\<close>

lemma indexOf_from_eq:
  "indexOf_from s (Some x) k = (if x \<in> set s then k + int (position_of s x) else - 1)"
  by (induction s arbitrary: k) (auto simp: position_of_def)

lemma indexOf_Some:
  "indexOf s (Some x) = (if x \<in> set s then int (position_of s x) else - 1)"
  by (simp add: indexOf_def indexOf_from_eq)

lemma indexOf_from_None: "indexOf_from s None k = - 1"
  by (induction s arbitrary: k) auto

lemma indexOf_None: "indexOf s None = - 1"
  by (simp add: indexOf_def indexOf_from_None)

lemma position_of_less: "x \<in> set s \<Longrightarrow> position_of s x < length s"
  by (induction s) (auto simp: position_of_def)

lemma getStackIndex_loop_Some:
  "getStackIndex_loop sts (Some x) k d =
     (case column_of sts x of None \<Rightarrow> d | Some i \<Rightarrow> Some (k + int i))"
  by (induction sts arbitrary: k) (auto simp: column_of_def indexOf_Some split: if_splits)

lemma getStackIndex_Some:
  "getStackIndex sts (Some x) d = (case column_of sts x of None \<Rightarrow> d | Some i \<Rightarrow> Some (int i))"
  by (simp add: getStackIndex_def getStackIndex_loop_Some split: option.splits)

lemma getStackIndex_loop_None: "getStackIndex_loop sts None k d = d"
  by (induction sts arbitrary: k) (auto simp: indexOf_None)

lemma getStackIndex_None: "getStackIndex sts None d = d"
  by (simp add: getStackIndex_def getStackIndex_loop_None)

lemma column_of_Some:
  assumes "column_of sts x = Some i"
  shows "i < length sts" and "x \<in> set (sts ! i)"
proof -
  from assms have m: "x \<in> set (concat sts)"
    and i: "i = length (takeWhile (\<lambda>s. x \<notin> set s) sts)"
    by (auto simp: column_of_def split: if_splits)
  from m have "\<exists>s \<in> set sts. \<not> x \<notin> set s" by auto
  then have "length (takeWhile (\<lambda>s. x \<notin> set s) sts) < length sts"
    by (induction sts) auto
  with i show "i < length sts" by simp
  with i nth_length_takeWhile [of "\<lambda>s. x \<notin> set s" sts] show "x \<in> set (sts ! i)" by auto
qed

lemma column_of_None: "column_of sts x = None \<longleftrightarrow> x \<notin> set (concat sts)"
  by (simp add: column_of_def)

lemma arg_0: "arg l 0 = (case args l of [] \<Rightarrow> None | x # rest \<Rightarrow> Some x)"
  by (simp add: arg_def split: list.splits)

lemma arg_1: "arg l (Suc 0) = (case args l of x # y # rest \<Rightarrow> Some y | other \<Rightarrow> None)"
  by (simp add: arg_def split: list.splits)

lemma located:
  assumes "location n x = Some (i, p)"
  shows "getStackIndex (stacks n) (Some x) d = Some (int i)"
    and "stack_at (stacks n) (int i) = Inr (stacks n ! i)"
    and "indexOf (stacks n ! i) (Some x) = int p"
    and "p < length (stacks n ! i)"
    and "x \<in> set (concat (stacks n))"
proof -
  from assms have c: "column_of (stacks n) x = Some i" and p: "p = position_of (stacks n ! i) x"
    by (auto simp: location_def split: option.splits)
  from c show "getStackIndex (stacks n) (Some x) d = Some (int i)"
    by (simp add: getStackIndex_Some)
  from column_of_Some [OF c] have i: "i < length (stacks n)" and m: "x \<in> set (stacks n ! i)" .
  from i show "stack_at (stacks n) (int i) = Inr (stacks n ! i)"
    by (simp add: stack_at_def at_index_def)
  from m p show "indexOf (stacks n ! i) (Some x) = int p" by (simp add: indexOf_Some)
  from m p show "p < length (stacks n ! i)" by (simp add: position_of_less)
  from i m show "x \<in> set (concat (stacks n))" by auto
qed

lemma not_located:
  assumes "location n x = None"
  shows "getStackIndex (stacks n) (Some x) d = d" and "x \<notin> set (concat (stacks n))"
proof -
  from assms have c: "column_of (stacks n) x = None"
    by (simp add: location_def split: option.splits)
  then show "getStackIndex (stacks n) (Some x) d = d" by (simp add: getStackIndex_Some)
  from c show "x \<notin> set (concat (stacks n))" by (simp add: column_of_None)
qed

lemma relation_fulfilled_holds:
  "rel \<noteq> Holding \<Longrightarrow>
   relation_fulfilled rel (int i) (int p) (int j) (int q) = relation_holds rel (i, p) (j, q)"
  by (cases rel) auto

lemma condition_fulfilled_satisfied:
  assumes cat: "\<forall>e \<in> set (concat (stacks n)). objs e \<noteq> None"
  shows "condition_fulfilled objs n l = Inr (literal_satisfied n l)"
proof (cases "relation l = Holding")
  case True
  then show ?thesis
    by (auto simp: condition_fulfilled_def literal_satisfied_def arg_0 strict_eq_def
        split: list.splits option.splits)
next
  case rel: False
  show ?thesis
  proof (cases "args l")
    case Nil
    with rel show ?thesis
      by (simp add: condition_fulfilled_def literal_satisfied_def arg_0 getStackIndex_None)
  next
    case (Cons x rest)
    show ?thesis
    proof (cases "location n x")
      case None
      with rel Cons not_located(1) [OF None] show ?thesis
        by (simp add: condition_fulfilled_def literal_satisfied_def arg_0 split: list.splits)
    next
      case (Some lx)
      obtain i p where lx: "lx = (i, p)" by (cases lx)
      note x = located [OF Some [unfolded lx]]
      show ?thesis
      proof (cases rest)
        case Nil
        with rel Cons Some x show ?thesis
          by (simp add: condition_fulfilled_def literal_satisfied_def arg_0 arg_1
              getStackIndex_None)
      next
        case (Cons y rest')
        note args = \<open>args l = x # rest\<close> Cons
        show ?thesis
        proof (cases "y = ''floor''")
          case True
          with rel args Some lx x show ?thesis
            by (simp add: condition_fulfilled_def literal_satisfied_def arg_0 arg_1)
        next
          case floor: False
          show ?thesis
          proof (cases "location n y")
            case None
            with rel args Some floor x not_located(1) [OF None] show ?thesis
              by (simp add: condition_fulfilled_def literal_satisfied_def arg_0 arg_1)
          next
            case (Some ly)
            obtain j q where ly: "ly = (j, q)" by (cases ly)
            note y = located [OF Some [unfolded ly]]
            from y(5) cat have "objs y \<noteq> None" by blast
            then obtain d where "lookup_entity objs (Some y) = Inr d"
              by (auto simp: lookup_entity_def lookup_def)
            with rel args \<open>location n x = Some lx\<close> Some lx ly floor x y show ?thesis
              by (simp add: condition_fulfilled_def literal_satisfied_def arg_0 arg_1
                  relation_fulfilled_holds)
          qed
        qed
      qed
    qed
  qed
qed

lemma conjunction_fulfilled_all:
  assumes "\<forall>e \<in> set (concat (stacks n)). objs e \<noteq> None"
  shows "conjunction_fulfilled objs n c = Inr (\<forall>l \<in> set c. literal_satisfied n l)"
  by (induction c) (simp_all add: condition_fulfilled_satisfied [OF assms])

lemma goal_loop_ex:
  assumes "\<forall>e \<in> set (concat (stacks n)). objs e \<noteq> None"
  shows "goal_loop objs n fm = Inr (\<exists>c \<in> set fm. \<forall>l \<in> set c. literal_satisfied n l)"
  by (induction fm) (auto simp: conjunction_fulfilled_all [OF assms])

text \<open>
  C3 (amended). When every entity in a column has a catalog entry, the goal test
  returns true if and only if at least one conjunction has all of its literals
  satisfied, where \<open>holding(x)\<close> is satisfied iff the held entity is \<open>x\<close>; every other
  literal requires its first entity to be located in a column (a held entity
  satisfies none of them); against a second entity, that one must be located too and
  the relation must hold between the two; \<open>ontop(x, floor)\<close> is satisfied iff \<open>x\<close> is
  at position 0 of its column; and a literal with the floor as second argument and
  another relation is satisfied as soon as its first entity is located in a column.
\<close>

theorem goal_iff:
  assumes "\<forall>e \<in> set (concat (stacks n)). objs e \<noteq> None"
  shows "goal interpretations objs n
         = Inr (\<exists>c \<in> set interpretations. \<forall>l \<in> set c. literal_satisfied n l)"
  by (simp add: goal_def goal_loop_ex [OF assms])

theorem goal_iff_witness:
  "concat (stacks ex_two) = [''b'', ''a''] \<and> ex_objects ''a'' \<noteq> None \<and> ex_objects ''b'' \<noteq> None
   \<and> goal ex_formula ex_objects ex_two = Inr False
   \<and> goal ontop_floor ex_objects ex_two = Inr True"
proof -
  have c: "concat (stacks ex_two) = [''b'', ''a'']" by (simp add: ex_two_def)
  have o: "ex_objects ''a'' \<noteq> None" "ex_objects ''b'' \<noteq> None" by (simp_all add: ex_objects_def)
  from c o have h: "\<forall>e \<in> set (concat (stacks ex_two)). ex_objects e \<noteq> None" by simp
  have "\<not> (\<exists>c \<in> set ex_formula. \<forall>l \<in> set c. literal_satisfied ex_two l)"
    by code_simp
  moreover have "\<exists>c \<in> set ontop_floor. \<forall>l \<in> set c. literal_satisfied ex_two l"
    by code_simp
  ultimately show ?thesis
    using goal_iff [OF h, of ex_formula] goal_iff [OF h, of ontop_floor] c o by simp
qed

text \<open>
  While the entity is held, a literal with the floor as second argument and a
  relation other than \<open>ontop\<close> is not treated as satisfied.
\<close>

theorem goal_iff_counterexample:
  "holding ex_picked = Some ''a'' \<and> goal above_floor ex_objects ex_picked = Inr False"
  by code_simp

section \<open>Bounds on the estimates\<close>

lemma locate_where_is:
  assumes r: "0 \<le> arm n" "arm n < int (length (stacks n))"
  shows "locate n e = Inr (where_is n e)"
proof -
  from r have a: "stack_at (stacks n) (arm n) = Inr (stacks n ! nat (arm n))"
    and m: "stacks n ! nat (arm n) \<in> set (stacks n)"
    by (simp_all add: stack_at_def at_index_def)
  show ?thesis
  proof (cases e)
    case None
    with a show ?thesis
      by (simp add: locate_def where_is_def getStackIndex_None indexOf_None)
  next
    case (Some x)
    show ?thesis
    proof (cases "location n x")
      case None
      from not_located(2) [OF None] m have "x \<notin> set (stacks n ! nat (arm n))" by auto
      with Some None a not_located(1) [OF None] show ?thesis
        by (simp add: locate_def where_is_def indexOf_Some)
    next
      case (Some lx)
      obtain i p where lx: "lx = (i, p)" by (cases lx)
      note x = located [OF Some [unfolded lx]]
      from \<open>e = Some x\<close> Some lx x show ?thesis
        by (simp add: locate_def where_is_def)
    qed
  qed
qed

lemma where_is_bounds:
  assumes "where_is n e = (i, p, a)"
  shows "0 \<le> a" and "- 1 \<le> p"
proof -
  show "0 \<le> a"
  proof (cases e)
    case None
    with assms show ?thesis by (simp add: where_is_def)
  next
    case (Some x)
    show ?thesis
    proof (cases "location n x")
      case None
      with Some assms show ?thesis by (simp add: where_is_def)
    next
      case (Some lx)
      obtain j q where lx: "lx = (j, q)" by (cases lx)
      from located(4) [OF Some [unfolded lx]] \<open>e = Some x\<close> Some lx assms
      show ?thesis by (simp add: where_is_def)
    qed
  qed
  from assms show "- 1 \<le> p"
    by (cases e; cases "location n (the e)") (auto simp: where_is_def)
qed


lemma leftof_cost_positive:
  assumes a: "0 \<le> fa" "0 \<le> sa"
    and h: "one \<Longrightarrow> strict_eq (holding n) first \<or> strict_eq (holding n) second \<or> fi = arm n"
  shows "1 \<le> leftof_cost n first second fi fa si sa one"
proof (cases one)
  case False
  have "0 \<le> min \<bar>fi - arm n\<bar> \<bar>si - arm n\<bar>" by simp
  moreover have "0 \<le> min (\<bar>fi - arm n\<bar> + fa * 4) (\<bar>si - arm n\<bar> + sa * 4)"
    using a by simp
  ultimately show ?thesis using False a
    by (simp add: leftof_cost_def)
next
  case True
  note h = h [OF True]
  show ?thesis
  proof (cases "(strict_eq (holding n) first \<and> arm n < si)
                \<or> (strict_eq (holding n) second \<and> arm n > fi)")
    case True
    with \<open>one\<close> show ?thesis by (simp add: leftof_cost_def)
  next
    case False
    with h have "2 \<le> (if strict_eq (holding n) first then arm n - si + 2 else fi - arm n + 2)"
      by auto
    moreover have "0 \<le> (if strict_eq (holding n) first \<and> si = 0 then sa * 4 + 3
                 else if strict_eq (holding n) second \<and> fi = int (length (stacks n)) - 1
                 then fa * 4 + 3 else 0)"
      using a by simp
    ultimately show ?thesis using \<open>one\<close> False
      by (simp add: leftof_cost_def)
  qed
qed

lemma relation_cost_free:
  "cost_free rel (fi, fp) (si, sp) \<Longrightarrow>
   relation_cost n rel first second (fi, fp, fa) (si, sp, sa) = 0"
  by (cases rel) (simp_all add: relation_cost_def)

lemma relation_cost_positive:
  assumes z: "\<not> cost_free rel (fi, fp) (si, sp)" and a: "0 \<le> fa" "0 \<le> sa"
    and h: "rel \<in> {Leftof, Rightof} \<Longrightarrow> fp = - 1 \<or> sp = - 1 \<Longrightarrow>
         strict_eq (holding n) first \<or> strict_eq (holding n) second \<or> fi = arm n"
    and b: "rel = Beside \<Longrightarrow> fp \<noteq> - 1 \<and> sp \<noteq> - 1"
  shows "1 \<le> relation_cost n rel first second (fi, fp, fa) (si, sp, sa)"
proof -
  have m: "0 \<le> min (\<bar>fi - arm n\<bar> + fa * 4) (\<bar>si - arm n\<bar> + sa * 4)"
    using a by simp
  have l: "1 \<le> leftof_cost n first second fi fa si sa (fp = - 1 \<or> sp = - 1)"
    if "rel \<in> {Leftof, Rightof}"
    using a h [OF that] by (intro leftof_cost_positive) auto
  show ?thesis
  proof (cases rel)
    case Leftof
    with z l show ?thesis by (auto simp: relation_cost_def)
  next
    case Rightof
    with z l show ?thesis by (auto simp: relation_cost_def)
  next
    case Beside
    with z b m show ?thesis by (auto simp: relation_cost_def)
  next
    case Ontop
    with z a show ?thesis by (auto simp: relation_cost_def)
  next
    case Inside
    with z a show ?thesis by (auto simp: relation_cost_def)
  next
    case Above
    with z a show ?thesis by (auto simp: relation_cost_def)
  next
    case Under
    with z a show ?thesis by (auto simp: relation_cost_def)
  next
    case Holding
    with z show ?thesis by simp
  qed
qed

lemma relation_cost_nonneg:
  assumes a: "0 \<le> fa" "0 \<le> sa"
    and h: "rel \<in> {Leftof, Rightof} \<Longrightarrow> fp = - 1 \<or> sp = - 1 \<Longrightarrow>
         strict_eq (holding n) first \<or> strict_eq (holding n) second \<or> fi = arm n"
  shows "0 \<le> relation_cost n rel first second (fi, fp, fa) (si, sp, sa)"
proof (cases "cost_free rel (fi, fp) (si, sp)")
  case True
  then show ?thesis by (simp add: relation_cost_free)
next
  case False
  show ?thesis
  proof (cases "rel = Beside \<and> (fp = - 1 \<or> sp = - 1)")
    case True
    then show ?thesis by (auto simp: relation_cost_def)
  next
    case b: False
    have "1 \<le> relation_cost n rel first second (fi, fp, fa) (si, sp, sa)"
      using False a h b by (intro relation_cost_positive) auto
    then show ?thesis by simp
  qed
qed


lemma condition_cost_eq:
  assumes r: "0 \<le> arm n" "arm n < int (length (stacks n))"
  shows "condition_cost n l =
     Inr (if relation l = Holding \<and> \<not> strict_eq (holding n) (arg l 0)
          then \<bar>fst (where_is n (arg l 0)) - arm n\<bar> + snd (snd (where_is n (arg l 0))) * 4
                 + (if truthy (holding n) then 2 else 1)
          else if relation l \<in> {Rightof, Under}
          then relation_cost n (relation l) (arg l 1) (arg l 0)
                 (where_is n (arg l 1)) (where_is n (arg l 0))
          else relation_cost n (relation l) (arg l 0) (arg l 1)
                 (where_is n (arg l 0)) (where_is n (arg l 1)))"
  by (auto simp: condition_cost_def two_entity_cost_def locate_where_is [OF r]
      split: prod.splits)

lemma where_is_unlocated:
  assumes "where_is n e = (i, p, a)" "p = - 1"
  shows "i = arm n" and "e = Some x \<Longrightarrow> x \<notin> set (concat (stacks n))"
proof -
  from assms show "i = arm n"
    by (cases e; cases "location n (the e)") (auto simp: where_is_def)
  assume "e = Some x"
  with assms have "location n x = None"
    by (cases "location n x") (auto simp: where_is_def)
  then show "x \<notin> set (concat (stacks n))" by (rule not_located(2))
qed

lemma placed_held:
  "placed n x \<Longrightarrow> x \<notin> set (concat (stacks n)) \<Longrightarrow> strict_eq (holding n) (Some x)"
  by (cases "holding n") (auto simp: placed_def entity_list_def strict_eq_def)

lemma placed_pair_cost:
  assumes p: "placed n x" "placed n y"
    and w: "where_is n (Some x) = (fi, fp, fa)" "where_is n (Some y) = (si, sp, sa)"
    and one: "fp = - 1 \<or> sp = - 1"
  shows "strict_eq (holding n) (Some x) \<or> strict_eq (holding n) (Some y) \<or> fi = arm n"
proof (cases "fp = - 1")
  case True
  from where_is_unlocated(1) [OF w(1) True] show ?thesis by simp
next
  case False
  with one have "sp = - 1" by simp
  from where_is_unlocated(2) [OF w(2) this] p(2) placed_held show ?thesis by blast
qed

lemma relation_cost_where_is_nonneg:
  assumes "rel \<in> {Leftof, Rightof} \<Longrightarrow>
           \<exists>x y. placed n x \<and> placed n y \<and> e1 = Some x \<and> e2 = Some y"
  shows "0 \<le> relation_cost n rel e1 e2 (where_is n e1) (where_is n e2)"
proof -
  obtain fi fp fa where f: "where_is n e1 = (fi, fp, fa)" by (cases "where_is n e1")
  obtain si sp sa where s: "where_is n e2 = (si, sp, sa)" by (cases "where_is n e2")
  have "strict_eq (holding n) e1 \<or> strict_eq (holding n) e2 \<or> fi = arm n"
    if "rel \<in> {Leftof, Rightof}" "fp = - 1 \<or> sp = - 1"
  proof -
    from assms [OF that(1)] obtain x y where
      xy: "placed n x" "placed n y" "e1 = Some x" "e2 = Some y" by blast
    from placed_pair_cost [OF xy(1,2) f [unfolded xy(3)] s [unfolded xy(4)] that(2)] xy(3,4)
    show ?thesis by simp
  qed
  with where_is_bounds(1) [OF f] where_is_bounds(1) [OF s] show ?thesis
    unfolding f s by (intro relation_cost_nonneg) auto
qed

lemma condition_cost_nonneg:
  assumes r: "0 \<le> arm n" "arm n < int (length (stacks n))"
    and p: "relation l \<in> {Leftof, Rightof} \<Longrightarrow> both_placed n l"
  shows "\<exists>v. condition_cost n l = Inr v \<and> 0 \<le> v"
proof -
  obtain fi fp fa where f: "where_is n (arg l 0) = (fi, fp, fa)"
    by (cases "where_is n (arg l 0)")
  from where_is_bounds(1) [OF f]
  have 1: "0 \<le> \<bar>fst (where_is n (arg l 0)) - arm n\<bar> + snd (snd (where_is n (arg l 0))) * 4
                 + (if truthy (holding n) then 2 else 1)"
    by (simp add: f)
  have a: "\<exists>x y. placed n x \<and> placed n y \<and> arg l 0 = Some x \<and> arg l 1 = Some y"
    if "relation l \<in> {Leftof, Rightof}"
    using p [OF that] by (auto simp: both_placed_def arg_0 arg_1 split: list.splits)
  have 2: "0 \<le> relation_cost n (relation l) (arg l 1) (arg l 0)
                 (where_is n (arg l 1)) (where_is n (arg l 0))"
    using a by (intro relation_cost_where_is_nonneg) blast
  have 3: "0 \<le> relation_cost n (relation l) (arg l 0) (arg l 1)
                 (where_is n (arg l 0)) (where_is n (arg l 1))"
    using a by (intro relation_cost_where_is_nonneg) blast
  from 1 2 3 show ?thesis
    by (simp add: condition_cost_eq [OF r])
qed


text \<open>
  C9 (amended). For a goal formula with at least one conjunction and a node whose arm
  is over a column, the heuristic is a non-negative integer provided each \<open>leftof\<close>
  and \<open>rightof\<close> literal names two entities that are placed in the node, in a column
  or held.
\<close>

theorem heuristics_nonneg:
  assumes ne: "interpretations \<noteq> []"
    and r: "0 \<le> arm n" "arm n < int (length (stacks n))"
    and p: "\<forall>c \<in> set interpretations. \<forall>l \<in> set c.
              relation l \<in> {Leftof, Rightof} \<longrightarrow> both_placed n l"
  shows "\<exists>k. heuristics interpretations n = Inr (Num k) \<and> 0 \<le> k"
proof -
  define est where "est l = (case condition_cost n l of Inl err \<Rightarrow> 0 | Inr v \<Rightarrow> v)" for l
  have c: "condition_cost n l = Inr (est l) \<and> 0 \<le> est l"
    if "c \<in> set interpretations" "l \<in> set c" for c l
  proof -
    from p that have "relation l \<in> {Leftof, Rightof} \<Longrightarrow> both_placed n l" by blast
    from condition_cost_nonneg [OF r this] show ?thesis by (auto simp: est_def)
  qed
  then have "\<forall>c \<in> set interpretations. \<forall>l \<in> set c. condition_cost n l = Inr (est l)"
    by blast
  from all_costs_sums [OF this, of "[]"] ne
  have h: "heuristics interpretations n
           = Inr (Num (Min ((\<lambda>c. sum_list (map est c)) ` set interpretations)))"
    by (simp add: heuristics_def Math_min_Min)
  have "0 \<le> sum_list (map est c)" if "c \<in> set interpretations" for c
    using c [OF that] by (intro sum_list_nonneg) auto
  with ne have "0 \<le> Min ((\<lambda>c. sum_list (map est c)) ` set interpretations)"
    by simp
  with h show ?thesis by blast
qed

lemma ex_formula_placed:
  "\<forall>c \<in> set ex_formula. \<forall>l \<in> set c. relation l \<in> {Leftof, Rightof} \<longrightarrow> both_placed ex_two l"
  by code_simp

lemma ex_formula_heuristics: "heuristics ex_formula ex_two = Inr (Num 6)"
  by code_simp

theorem heuristics_nonneg_witness:
  "ex_formula \<noteq> [] \<and> 0 \<le> arm ex_two \<and> arm ex_two < int (length (stacks ex_two))
   \<and> both_placed ex_two ex_leftof \<and> ex_leftof \<in> set (ex_formula ! 1)
   \<and> heuristics ex_formula ex_two = Inr (Num 6)"
proof -
  have n: "ex_formula \<noteq> []" by (simp add: ex_formula_def)
  have r: "0 \<le> arm ex_two" "arm ex_two < int (length (stacks ex_two))"
    by (simp_all add: ex_two_def)
  have p: "both_placed ex_two ex_leftof" by code_simp
  have m: "ex_leftof \<in> set (ex_formula ! 1)" by (simp add: ex_formula_def ex_leftof_def)
  from heuristics_nonneg [OF n r ex_formula_placed] ex_formula_heuristics n r p m
  show ?thesis by simp
qed

text \<open>
  A \<open>leftof\<close> literal whose second argument is in no column and not held, an entity of
  the catalog that is not in the world or the floor, gets a negative estimate when
  the arm is far to the right of the first entity.
\<close>

theorem heuristics_nonneg_counterexample:
  "ex_objects ''a'' \<noteq> None \<and> ex_objects ''b'' \<noteq> None \<and> well_formed ex_objects ex_far
   \<and> heuristics [[ex_leftof]] ex_far = Inr (Num (- 1))
   \<and> heuristics leftof_floor ex_far = Inr (Num (- 1))"
  by code_simp

section \<open>The estimate of a single literal\<close>



















end
